theory Spec2Isabelle
  imports Main "HOL-Library.Word"
begin

unbundle bit_operations_syntax

section \<open>Constants and data model of the simulator (caching.cpp)\<close>

text \<open>
  The simulator is built with two macro parameters, \<open>CACHE_BLOCKS\<close> (default 1) and
  \<open>BLOCK_SIZE\<close> (default 8).  \<open>BLOCK_SIZE\<close> is the explicit argument \<open>bs\<close> of every
  function that depends on it; \<open>CACHE_BLOCKS\<close> is the extent of the arrays
  \<open>dictionary\<close> and \<open>data_cache\<close>, that is, the length of the two lists.
\<close>

type_synonym byte = "8 word"
type_synonym ushort = "16 word"
type_synonym ulong = "64 word"

text \<open>One memory word is \<open>unsigned char [WORD_SIZE]\<close>: the high byte, then the low byte.\<close>

type_synonym cell = "byte \<times> byte"
type_synonym block = "cell list"

definition WORD_SIZE :: nat where
  "WORD_SIZE = 2"

definition CODE_SIZE :: nat where
  "CODE_SIZE = 1024"

definition REGISTERS :: nat where
  "REGISTERS = 16"

definition DATA_SIZE :: "nat \<Rightarrow> nat" where
  "DATA_SIZE bs = 1024 div bs"

definition MEM_FILLER :: byte where
  "MEM_FILLER = 0xFF"

definition BRANCH_LIMIT :: int where
  "BRANCH_LIMIT = 1000000"

definition addr2tag :: "nat \<Rightarrow> ushort \<Rightarrow> nat" where
  "addr2tag bs addr = unat addr div bs"

definition addr2offset :: "nat \<Rightarrow> ushort \<Rightarrow> nat" where
  "addr2offset bs addr = unat addr mod bs"

datatype Opcode =
  ADD_OPCODE | SUB_OPCODE | AND_OPCODE | OR_OPCODE | XOR_OPCODE
  | MOVE_OPCODE | SHIFT_OPCODE | BRANCH_OPCODE | NUM_OPCODES

datatype Phase =
  FETCH_INSTR | DECODE_INSTR | CALCULATE_EA | FETCH_OPERANDS | EXECUTE_INSTR | WRITE_BACK
  | NUM_PHASES | ILLEGAL_OPCODE | INFINITE_LOOP | ILLEGAL_ADDRESS

record CacheEntry =
  valid :: bool
  dirty :: bool
  ref_count :: ulong
  tag :: ushort

text \<open>
  The latches of \<open>struct STATE\<close> and the file-level variables of caching.cpp, in one
  record.  \<open>branch_count\<close> is a C \<open>int\<close>; it never passes \<open>BRANCH_LIMIT + 1\<close> in a run,
  so it is an unbounded integer here.
\<close>

record sim =
  PC :: ushort
  MDR :: ushort
  MAR :: ushort
  IR0 :: byte
  IR1 :: byte
  ALU_x :: ushort
  ALU_y :: ushort
  ALU_z :: ushort
  branch_count :: int
  code :: "cell list"
  data :: "block list"
  data_cache :: "block list"
  dictionary :: "CacheEntry list"
  cache_hits :: ulong
  current_ref_count :: ulong
  registers :: "ushort list"

text \<open>
  An index past the end of \<open>data\<close> is undefined behaviour in C++; the model makes it
  a value.
\<close>

datatype fault = ArrayOutOfBounds

section \<open>Field extraction\<close>

definition opcode_of :: "byte \<Rightarrow> Opcode" where
  "opcode_of b =
     (if b = 0 then ADD_OPCODE else if b = 1 then SUB_OPCODE
      else if b = 2 then AND_OPCODE else if b = 3 then OR_OPCODE
      else if b = 4 then XOR_OPCODE else if b = 5 then MOVE_OPCODE
      else if b = 6 then SHIFT_OPCODE else if b = 7 then BRANCH_OPCODE
      else NUM_OPCODES)"

definition opcode :: "sim \<Rightarrow> Opcode" where
  "opcode s = opcode_of (drop_bit 5 (IR0 s))"

definition mode :: "sim \<Rightarrow> byte" where
  "mode s = drop_bit 2 (IR0 s) AND 0x07"

text \<open>
  \<open>extract_literal\<close> returns a \<open>char\<close>: the byte below, read as a signed value when it
  is widened to a 16-bit latch (\<open>scast\<close>), as on the platforms where \<open>char\<close> is signed.
\<close>

definition extract_literal :: "sim \<Rightarrow> byte" where
  "extract_literal s =
     (let v = IR1 s AND 0x3F
      in if v AND 0x20 \<noteq> 0 then v OR 0xC0 else v)"

definition get_reg1 :: "sim \<Rightarrow> byte" where
  "get_reg1 s = (push_bit 2 (IR0 s AND 0x03) OR drop_bit 6 (IR1 s)) AND 0x0F"

text \<open>The second register index, computed inline as \<open>reg = IR[1] >> 2; reg &= 0x0F\<close>.\<close>

definition get_reg2 :: "sim \<Rightarrow> byte" where
  "get_reg2 s = drop_bit 2 (IR1 s) AND 0x0F"

section \<open>Cache processing routines\<close>

text \<open>
  The block copy loops \<open>for (i = 0; i < BLOCK_SIZE; i++) dst[i] = src[i]\<close> (both bytes
  of each word).
\<close>

definition copy_block :: "nat \<Rightarrow> block \<Rightarrow> block \<Rightarrow> block" where
  "copy_block bs src dst = fold (\<lambda>i d. d[i := src ! i]) [0..<bs] dst"

text \<open>
  \<open>write_block\<close>: writes a valid dirty block to \<open>data[tag]\<close> and clears the dictionary
  entry of a valid block.
\<close>

definition write_block :: "nat \<Rightarrow> nat \<Rightarrow> sim \<Rightarrow> fault + sim" where
  "write_block bs block_id s =
     (let e = dictionary s ! block_id;
          cleared = e\<lparr>valid := False, dirty := False, ref_count := 0\<rparr>
      in if valid e then
           (if dirty e then
              (if unat (tag e) < DATA_SIZE bs then
                 Inr (s\<lparr>data := (data s)[unat (tag e) :=
                                  copy_block bs (data_cache s ! block_id) (data s ! unat (tag e))],
                         dictionary := (dictionary s)[block_id := cleared]\<rparr>)
               else Inl ArrayOutOfBounds)
            else Inr (s\<lparr>dictionary := (dictionary s)[block_id := cleared]\<rparr>))
         else Inr s)"

text \<open>
  The scan of \<open>removeLRU\<close>: \<open>i\<close> is the index of the head of the list, the pair is
  \<open>(LRU, block_id)\<close>.
\<close>

fun lru_scan :: "CacheEntry list \<Rightarrow> nat \<Rightarrow> ulong \<times> nat \<Rightarrow> ulong \<times> nat" where
  "lru_scan [] i acc = acc"
| "lru_scan (e # es) i (LRU, block_id) =
     lru_scan es (Suc i)
       (if valid e \<and> ref_count e < LRU then (ref_count e, i) else (LRU, block_id))"

definition removeLRU :: "nat \<Rightarrow> sim \<Rightarrow> fault + (nat \<times> sim)" where
  "removeLRU bs s =
     (let block_id = snd (lru_scan (dictionary s) 0 (0xFFFFFFFF, 0))
      in case write_block bs block_id s of
           Inl f \<Rightarrow> Inl f
         | Inr s' \<Rightarrow> Inr (block_id, s'))"

text \<open>The search for the first free block in \<open>fetch_block\<close>; \<open>None\<close> is \<open>!found\<close>.\<close>

fun first_free :: "CacheEntry list \<Rightarrow> nat \<Rightarrow> nat option" where
  "first_free [] i = None"
| "first_free (e # es) i = (if \<not> valid e then Some i else first_free es (Suc i))"

definition fetch_block :: "nat \<Rightarrow> ushort \<Rightarrow> sim \<Rightarrow> fault + (nat \<times> sim)" where
  "fetch_block bs t s =
     (case (case first_free (dictionary s) 0 of
              Some block_id \<Rightarrow> Inr (block_id, s)
            | None \<Rightarrow> removeLRU bs s) of
        Inl f \<Rightarrow> Inl f
      | Inr (block_id, s1) \<Rightarrow>
          if unat t < DATA_SIZE bs then
            Inr (block_id,
                 s1\<lparr>data_cache := (data_cache s1)[block_id :=
                                     copy_block bs (data s1 ! unat t) (data_cache s1 ! block_id)],
                    dictionary := (dictionary s1)[block_id :=
                                     (dictionary s1 ! block_id)\<lparr>valid := True, dirty := False,
                                                                tag := t\<rparr>]\<rparr>)
          else Inl ArrayOutOfBounds)"

text \<open>
  The linear search of \<open>find_block\<close>; its \<open>tag\<close> parameter is an \<open>unsigned long\<close> holding
  \<open>MAR / BLOCK_SIZE\<close>, compared with the 16-bit tags of the dictionary.
\<close>

fun find_scan :: "CacheEntry list \<Rightarrow> nat \<Rightarrow> nat \<Rightarrow> nat option" where
  "find_scan [] i t = None"
| "find_scan (e # es) i t =
     (if valid e \<and> unat (tag e) = t then Some i else find_scan es (Suc i) t)"

definition find_block :: "nat \<Rightarrow> sim \<Rightarrow> nat option" where
  "find_block t s = find_scan (dictionary s) 0 t"

text \<open>
  The common prelude of \<open>cache_read\<close> and \<open>cache_write\<close>: look the block up, fetch it
  on a miss, count a hit otherwise.
\<close>

definition locate_block :: "nat \<Rightarrow> sim \<Rightarrow> fault + (nat \<times> sim)" where
  "locate_block bs s =
     (case find_block (addr2tag bs (MAR s)) s of
        None \<Rightarrow> fetch_block bs (of_nat (addr2tag bs (MAR s))) s
      | Some block_id \<Rightarrow> Inr (block_id, s\<lparr>cache_hits := cache_hits s + 1\<rparr>))"

definition cache_write :: "nat \<Rightarrow> sim \<Rightarrow> fault + (Phase \<times> sim)" where
  "cache_write bs s =
     (if unat (MAR s) < DATA_SIZE bs * bs * 2 then
        (case locate_block bs s of
           Inl f \<Rightarrow> Inl f
         | Inr (block_id, s1) \<Rightarrow>
             Inr (FETCH_INSTR,
                  s1\<lparr>data_cache := (data_cache s1)[block_id :=
                         (data_cache s1 ! block_id)[addr2offset bs (MAR s) :=
                            (ucast (drop_bit 8 (MDR s)), ucast (MDR s AND 0x00FF))]],
                     dictionary := (dictionary s1)[block_id :=
                         (dictionary s1 ! block_id)\<lparr>ref_count := current_ref_count s1,
                                                    dirty := True\<rparr>],
                     current_ref_count := current_ref_count s1 + 1\<rparr>))
      else Inr (ILLEGAL_ADDRESS, s))"

definition cache_read :: "nat \<Rightarrow> sim \<Rightarrow> fault + (Phase \<times> sim)" where
  "cache_read bs s =
     (if unat (MAR s) < DATA_SIZE bs * bs * 2 then
        (case locate_block bs s of
           Inl f \<Rightarrow> Inl f
         | Inr (block_id, s1) \<Rightarrow>
             (let w = data_cache s1 ! block_id ! addr2offset bs (MAR s)
              in Inr (WRITE_BACK,
                      s1\<lparr>MDR := push_bit 8 (ucast (fst w)) OR ucast (snd w),
                         dictionary := (dictionary s1)[block_id :=
                            (dictionary s1 ! block_id)\<lparr>ref_count := current_ref_count s1\<rparr>],
                         current_ref_count := current_ref_count s1 + 1\<rparr>)))
      else Inr (ILLEGAL_ADDRESS, s))"

section \<open>State processing routines\<close>

definition fetch_instr :: "sim \<Rightarrow> Phase \<times> sim" where
  "fetch_instr s =
     (if unat (PC s) < CODE_SIZE then
        (let w = code s ! unat (PC s);
             mdr = push_bit 8 (ucast (fst w)) OR ucast (snd w) :: ushort
         in (DECODE_INSTR,
             s\<lparr>MAR := PC s, MDR := mdr,
               IR0 := ucast (drop_bit 8 mdr), IR1 := ucast (mdr AND 0x00FF)\<rparr>))
      else (ILLEGAL_ADDRESS, s))"

definition decode_instr :: "sim \<Rightarrow> Phase \<times> sim" where
  "decode_instr s =
     (case opcode s of
        MOVE_OPCODE \<Rightarrow>
          (if mode s AND 0x02 \<noteq> 0 then (ILLEGAL_OPCODE, s) else (CALCULATE_EA, s))
      | BRANCH_OPCODE \<Rightarrow>
          (if mode s = 0x07 then (ILLEGAL_OPCODE, s) else (FETCH_OPERANDS, s))
      | NUM_OPCODES \<Rightarrow> (ILLEGAL_OPCODE, s)
      | _ \<Rightarrow> (if 1 < mode s then (ILLEGAL_OPCODE, s) else (FETCH_OPERANDS, s)))"

text \<open>The local \<open>reg\<close> of \<open>calculate_ea\<close>; \<open>0xFF\<close> means that no register is read.\<close>

definition ea_reg :: "sim \<Rightarrow> byte" where
  "ea_reg s =
     (if mode s AND 0x04 \<noteq> 0 then get_reg1 s
      else if mode s AND 0x01 \<noteq> 0 then get_reg2 s
      else 0xFF)"

definition calculate_ea :: "sim \<Rightarrow> Phase \<times> sim" where
  "calculate_ea s =
     (if ea_reg s \<noteq> 0xFF then (FETCH_OPERANDS, s\<lparr>MAR := registers s ! unat (ea_reg s)\<rparr>)
      else (FETCH_OPERANDS, s))"

definition is_alu :: "Opcode \<Rightarrow> bool" where
  "is_alu opc \<longleftrightarrow> opc \<in> {ADD_OPCODE, SUB_OPCODE, AND_OPCODE, OR_OPCODE, XOR_OPCODE}"

definition fetch_operands :: "nat \<Rightarrow> sim \<Rightarrow> fault + (Phase \<times> sim)" where
  "fetch_operands bs s =
     (let s1 = (if opcode s \<noteq> MOVE_OPCODE
                then s\<lparr>ALU_x := registers s ! unat (get_reg1 s)\<rparr> else s)
      in if is_alu (opcode s) then
           (if mode s = 0 then Inr (EXECUTE_INSTR, s1\<lparr>ALU_y := scast (extract_literal s)\<rparr>)
            else Inr (EXECUTE_INSTR, s1\<lparr>ALU_y := registers s ! unat (get_reg2 s)\<rparr>))
         else if opcode s = MOVE_OPCODE then
           (if mode s AND 0x01 = 0 then Inr (WRITE_BACK, s1\<lparr>MDR := scast (extract_literal s)\<rparr>)
            else if mode s AND 0x04 \<noteq> 0 then
              Inr (WRITE_BACK, s1\<lparr>MDR := registers s ! unat (get_reg2 s)\<rparr>)
            else cache_read bs s1)
         else if opcode s = BRANCH_OPCODE then
           Inr (EXECUTE_INSTR, s1\<lparr>ALU_y := scast (extract_literal s)\<rparr>)
         else Inr (EXECUTE_INSTR, s1))"

text \<open>The condition of a conditional branch: \<open>(short)ALU_x\<close> against \<open>(short)registers[0]\<close>.\<close>

definition branch_taken :: "sim \<Rightarrow> bool" where
  "branch_taken s =
     (let x = sint (ALU_x s); r0 = sint (registers s ! 0)
      in if mode s = 1 then x = r0
         else if mode s = 2 then x \<noteq> r0
         else if mode s = 3 then x < r0
         else if mode s = 4 then x > r0
         else if mode s = 5 then x \<le> r0
         else if mode s = 6 then x \<ge> r0
         else False)"

text \<open>\<open>branch_count++\<close> and the test against \<open>BRANCH_LIMIT\<close>, after \<open>ALU_z\<close> is latched.\<close>

definition count_branch :: "sim \<Rightarrow> Phase \<times> sim" where
  "count_branch s =
     (let s' = s\<lparr>branch_count := branch_count s + 1\<rparr>
      in if branch_count s' > BRANCH_LIMIT then (INFINITE_LOOP, s') else (WRITE_BACK, s'))"

definition execute_instr :: "sim \<Rightarrow> Phase \<times> sim" where
  "execute_instr s =
     (case opcode s of
        ADD_OPCODE \<Rightarrow> (WRITE_BACK, s\<lparr>ALU_z := word_of_int (sint (ALU_x s) + sint (ALU_y s))\<rparr>)
      | SUB_OPCODE \<Rightarrow> (WRITE_BACK, s\<lparr>ALU_z := word_of_int (sint (ALU_x s) - sint (ALU_y s))\<rparr>)
      | AND_OPCODE \<Rightarrow> (WRITE_BACK, s\<lparr>ALU_z := ALU_x s AND ALU_y s\<rparr>)
      | OR_OPCODE \<Rightarrow> (WRITE_BACK, s\<lparr>ALU_z := ALU_x s OR ALU_y s\<rparr>)
      | XOR_OPCODE \<Rightarrow> (WRITE_BACK, s\<lparr>ALU_z := ALU_x s XOR ALU_y s\<rparr>)
      | SHIFT_OPCODE \<Rightarrow>
          (if mode s = 0 then (WRITE_BACK, s\<lparr>ALU_z := drop_bit 1 (ALU_x s)\<rparr>)
           else (WRITE_BACK, s\<lparr>ALU_z := push_bit 1 (ALU_x s)\<rparr>))
      | BRANCH_OPCODE \<Rightarrow>
          (if mode s = 0 then count_branch (s\<lparr>ALU_z := ALU_x s\<rparr>)
           else if branch_taken s then count_branch (s\<lparr>ALU_z := PC s + ALU_y s - 1\<rparr>)
           else (WRITE_BACK, s\<lparr>ALU_z := PC s\<rparr>))
      | _ \<Rightarrow> (WRITE_BACK, s))"

definition write_back :: "nat \<Rightarrow> sim \<Rightarrow> fault + (Phase \<times> sim)" where
  "write_back bs s =
     (let reg = unat (get_reg1 s)
      in case (if is_alu (opcode s) \<or> opcode s = SHIFT_OPCODE then
                 Inr (FETCH_INSTR, s\<lparr>registers := (registers s)[reg := ALU_z s]\<rparr>)
               else if opcode s = BRANCH_OPCODE then Inr (FETCH_INSTR, s\<lparr>PC := ALU_z s\<rparr>)
               else if opcode s = MOVE_OPCODE then
                 (if mode s AND 0x04 \<noteq> 0 then cache_write bs s
                  else Inr (FETCH_INSTR, s\<lparr>registers := (registers s)[reg := MDR s]\<rparr>))
               else Inr (FETCH_INSTR, s)) of
           Inl f \<Rightarrow> Inl f
         | Inr (rc, s') \<Rightarrow> Inr (rc, s'\<lparr>PC := PC s' + 1\<rparr>))"

section \<open>The control unit and the simulation loop\<close>

definition control_unit :: "nat \<Rightarrow> Phase \<Rightarrow> sim \<Rightarrow> fault + (Phase \<times> sim)" where
  "control_unit bs ph s =
     (case ph of
        FETCH_INSTR \<Rightarrow> Inr (fetch_instr s)
      | DECODE_INSTR \<Rightarrow> Inr (decode_instr s)
      | CALCULATE_EA \<Rightarrow> Inr (calculate_ea s)
      | FETCH_OPERANDS \<Rightarrow> fetch_operands bs s
      | EXECUTE_INSTR \<Rightarrow> Inr (execute_instr s)
      | WRITE_BACK \<Rightarrow> write_back bs s
      | _ \<Rightarrow> Inr (ph, s))"

text \<open>\<open>current_phase < NUM_PHASES\<close>, the condition of the loop in \<open>main\<close>.\<close>

definition running :: "Phase \<Rightarrow> bool" where
  "running ph \<longleftrightarrow>
     ph \<in> {FETCH_INSTR, DECODE_INSTR, CALCULATE_EA, FETCH_OPERANDS, EXECUTE_INSTR, WRITE_BACK}"

text \<open>
  The loop \<open>while (current_phase < NUM_PHASES) current_phase = control_unit[current_phase]()\<close>
  with a bound on the number of phases it runs: it stops at a terminal phase, and
  returns the phase it has reached when the bound is used up.
\<close>

fun run_phases :: "nat \<Rightarrow> nat \<Rightarrow> Phase \<Rightarrow> sim \<Rightarrow> fault + (Phase \<times> sim)" where
  "run_phases bs 0 ph s = Inr (ph, s)"
| "run_phases bs (Suc n) ph s =
     (if running ph then
        (case control_unit bs ph s of
           Inl f \<Rightarrow> Inl f
         | Inr (ph', s') \<Rightarrow> run_phases bs n ph' s')
      else Inr (ph, s))"

text \<open>The flush after the loop: \<open>for (i = 0; i < CACHE_BLOCKS; i++) write_block(i)\<close>.\<close>

fun flush_from :: "nat \<Rightarrow> nat \<Rightarrow> nat \<Rightarrow> sim \<Rightarrow> fault + sim" where
  "flush_from bs i 0 s = Inr s"
| "flush_from bs i (Suc n) s =
     (case write_block bs i s of
        Inl f \<Rightarrow> Inl f
      | Inr s' \<Rightarrow> flush_from bs (Suc i) n s')"

definition flush_cache :: "nat \<Rightarrow> sim \<Rightarrow> fault + sim" where
  "flush_cache bs s = flush_from bs 0 (length (dictionary s)) s"

section \<open>Initialisation\<close>

text \<open>
  The variables with static storage before \<open>main\<close> runs: zero, except for
  \<open>current_ref_count = 1\<close>.
\<close>

definition static_storage :: "nat \<Rightarrow> nat \<Rightarrow> sim" where
  "static_storage cb bs =
     \<lparr>PC = 0, MDR = 0, MAR = 0, IR0 = 0, IR1 = 0, ALU_x = 0, ALU_y = 0, ALU_z = 0,
      branch_count = 0,
      code = replicate CODE_SIZE (0, 0),
      data = replicate (DATA_SIZE bs) (replicate bs (0, 0)),
      data_cache = replicate cb (replicate bs (0, 0)),
      dictionary = replicate cb \<lparr>valid = False, dirty = False, ref_count = 0, tag = 0\<rparr>,
      cache_hits = 0, current_ref_count = 1,
      registers = replicate REGISTERS 0\<rparr>"

definition initialize_system :: "sim \<Rightarrow> sim" where
  "initialize_system s =
     s\<lparr>PC := 0, MDR := 0, MAR := 0, ALU_x := 0, ALU_y := 0, ALU_z := 0,
       code := map (\<lambda>_. (MEM_FILLER, MEM_FILLER)) (code s),
       data := map (map (\<lambda>_. (MEM_FILLER, MEM_FILLER))) (data s),
       registers := map (\<lambda>_. 0) (registers s),
       dictionary := map (\<lambda>e. e\<lparr>valid := False, dirty := False, tag := 0, ref_count := 0\<rparr>)
                         (dictionary s),
       data_cache := map (map (\<lambda>_. (MEM_FILLER, MEM_FILLER))) (data_cache s)\<rparr>"

definition startup :: "nat \<Rightarrow> nat \<Rightarrow> sim" where
  "startup cb bs = initialize_system (static_storage cb bs)"

section \<open>The assembler's instruction encoding (assembler.cpp)\<close>

datatype AsmOpcode =
  ASM_ADD | ASM_SUB | ASM_AND | ASM_OR | ASM_XOR | ASM_MOVE | ASM_SHIFT | ASM_BRANCH

text \<open>\<open>static_cast<unsigned char>(opcode)\<close>: the position in the \<open>enum class\<close>.\<close>

fun opcode_value :: "AsmOpcode \<Rightarrow> byte" where
  "opcode_value ASM_ADD = 0"
| "opcode_value ASM_SUB = 1"
| "opcode_value ASM_AND = 2"
| "opcode_value ASM_OR = 3"
| "opcode_value ASM_XOR = 4"
| "opcode_value ASM_MOVE = 5"
| "opcode_value ASM_SHIFT = 6"
| "opcode_value ASM_BRANCH = 7"

record Instruction =
  instr_opcode :: AsmOpcode
  instr_type :: byte
  reg1 :: byte
  reg2 :: byte
  immediate :: ushort

text \<open>
  \<open>Instruction::encode\<close>.  The operands are promoted to \<open>int\<close> (32 bits; the \<open>short\<close>
  immediate with its sign), combined, and stored into an \<open>unsigned char\<close>.
\<close>

definition encode :: "Instruction \<Rightarrow> byte \<times> byte" where
  "encode i =
     (let opc = ucast (opcode_value (instr_opcode i)) :: 32 word;
          ty = ucast (instr_type i) :: 32 word;
          r1 = ucast (reg1 i) :: 32 word;
          r2 = ucast (reg2 i) :: 32 word;
          imm = scast (immediate i) :: 32 word
      in (ucast (push_bit 5 opc OR push_bit 2 ty OR drop_bit 2 r1),
          ucast (push_bit 6 (r1 AND 0x03) OR push_bit 2 r2 OR (imm AND 0x03))))"

section \<open>Auxiliary notions for the statements\<close>

text \<open>The processor side of the state is the same in \<open>s\<close> and \<open>s'\<close> (all but \<open>MDR\<close>).\<close>

definition same_cpu :: "sim \<Rightarrow> sim \<Rightarrow> bool" where
  "same_cpu s s' \<longleftrightarrow>
     PC s' = PC s \<and> MAR s' = MAR s \<and> IR0 s' = IR0 s \<and> IR1 s' = IR1 s
     \<and> ALU_x s' = ALU_x s \<and> ALU_y s' = ALU_y s \<and> ALU_z s' = ALU_z s
     \<and> branch_count s' = branch_count s \<and> code s' = code s \<and> registers s' = registers s"

text \<open>The instruction in the latches is a jump or a conditional branch that is taken.\<close>

definition counted_branch :: "sim \<Rightarrow> bool" where
  "counted_branch s \<longleftrightarrow> opcode s = BRANCH_OPCODE \<and> (mode s = 0 \<or> branch_taken s)"

text \<open>
  The word at \<open>PC\<close> is a jump (BRANCH, mode 0) through a register that holds \<open>PC - 1\<close>:
  with the increment of \<open>write_back\<close> the jump comes back to itself.
\<close>

definition self_jump :: "sim \<Rightarrow> bool" where
  "self_jump s \<longleftrightarrow>
     unat (PC s) < CODE_SIZE
     \<and> (let i = snd (fetch_instr s)
        in opcode i = BRANCH_OPCODE \<and> mode i = 0
           \<and> registers s ! unat (get_reg1 i) + 1 = PC s)"

text \<open>
  Two small programs in a freshly initialised machine (one cache block, blocks of eight
  words): \<open>JUMP R1\<close> at address 1, entered at address 1 with \<open>R1 = 0\<close>; and
  \<open>BEQ R1, +2\<close> at address 0.
\<close>

definition jump_program :: sim where
  "jump_program = startup 1 8\<lparr>PC := 1, code := (code (startup 1 8))[1 := (0xE0, 0x40)]\<rparr>"


section \<open>Cache operations in sequence, and the cache invariants\<close>

text \<open>
  The operations that the simulator performs on the cache as a whole: a read and a
  write at an address (the MOVE instructions latch \<open>MAR\<close>, and \<open>MDR\<close> for a write,
  before they call \<open>cache_read\<close> and \<open>cache_write\<close>), the eviction \<open>removeLRU\<close>, and the
  flush at the end of \<open>main\<close>.  A fill (\<open>fetch_block\<close>) is only ever run on a miss inside
  a read or a write.
\<close>

datatype cache_op = Read ushort | Write ushort ushort | Evict | Flush

fun apply_op :: "nat \<Rightarrow> cache_op \<Rightarrow> sim \<Rightarrow> fault + sim" where
  "apply_op bs (Read a) s =
     (case cache_read bs (s\<lparr>MAR := a\<rparr>) of Inl f \<Rightarrow> Inl f | Inr (ph, s') \<Rightarrow> Inr s')"
| "apply_op bs (Write a v) s =
     (case cache_write bs (s\<lparr>MAR := a, MDR := v\<rparr>) of Inl f \<Rightarrow> Inl f | Inr (ph, s') \<Rightarrow> Inr s')"
| "apply_op bs Evict s =
     (case removeLRU bs s of Inl f \<Rightarrow> Inl f | Inr (b, s') \<Rightarrow> Inr s')"
| "apply_op bs Flush s = flush_cache bs s"

fun run_ops :: "nat \<Rightarrow> cache_op list \<Rightarrow> sim \<Rightarrow> fault + sim" where
  "run_ops bs [] s = Inr s"
| "run_ops bs (x # xs) s =
     (case apply_op bs x s of Inl f \<Rightarrow> Inl f | Inr s' \<Rightarrow> run_ops bs xs s')"

text \<open>The arrays have their declared extents, and there is at least one cache block.\<close>

definition well_formed :: "nat \<Rightarrow> sim \<Rightarrow> bool" where
  "well_formed bs s \<longleftrightarrow>
     dictionary s \<noteq> [] \<and> length (data_cache s) = length (dictionary s)
     \<and> length (data s) = DATA_SIZE bs
     \<and> (\<forall>blk \<in> set (data s). length blk = bs)
     \<and> (\<forall>blk \<in> set (data_cache s). length blk = bs)"

definition tags_in_range :: "nat \<Rightarrow> sim \<Rightarrow> bool" where
  "tags_in_range bs s \<longleftrightarrow> (\<forall>e \<in> set (dictionary s). valid e \<longrightarrow> unat (tag e) < DATA_SIZE bs)"

definition unique_tags :: "sim \<Rightarrow> bool" where
  "unique_tags s \<longleftrightarrow>
     (\<forall>i \<in> {0..<length (dictionary s)}. \<forall>j \<in> {0..<length (dictionary s)}.
        valid (dictionary s ! i) \<and> valid (dictionary s ! j)
        \<and> tag (dictionary s ! i) = tag (dictionary s ! j) \<longrightarrow> i = j)"

text \<open>P1: the payload of every valid entry that is not dirty equals its memory block.\<close>

definition clean_entries_match_memory :: "sim \<Rightarrow> bool" where
  "clean_entries_match_memory s \<longleftrightarrow>
     (\<forall>i \<in> {0..<length (dictionary s)}.
        valid (dictionary s ! i) \<and> \<not> dirty (dictionary s ! i) \<longrightarrow>
          data_cache s ! i = data s ! unat (tag (dictionary s ! i)))"

text \<open>Entry \<open>i\<close> is valid and its payload differs from its memory block.\<close>

definition diverged :: "sim \<Rightarrow> nat \<Rightarrow> bool" where
  "diverged s i \<longleftrightarrow>
     valid (dictionary s ! i) \<and> data_cache s ! i \<noteq> data s ! unat (tag (dictionary s ! i))"

text \<open>
  P2: the reference counts of the valid entries are below \<open>current_ref_count\<close> and
  pairwise distinct.
\<close>

definition ref_counts_stamped :: "sim \<Rightarrow> bool" where
  "ref_counts_stamped s \<longleftrightarrow>
     (\<forall>i \<in> {0..<length (dictionary s)}.
        valid (dictionary s ! i) \<longrightarrow> ref_count (dictionary s ! i) < current_ref_count s)
     \<and> (\<forall>i \<in> {0..<length (dictionary s)}. \<forall>j \<in> {0..<length (dictionary s)}.
          valid (dictionary s ! i) \<and> valid (dictionary s ! j) \<and> i \<noteq> j \<longrightarrow>
            ref_count (dictionary s ! i) \<noteq> ref_count (dictionary s ! j))"

text \<open>
  The end of \<open>fetch_block\<close>: the copy of \<open>data[tag]\<close> into block \<open>b\<close> and the marking of
  its dictionary entry.
\<close>

definition fill_block :: "nat \<Rightarrow> ushort \<Rightarrow> nat \<Rightarrow> sim \<Rightarrow> sim" where
  "fill_block bs t b s1 =
     s1\<lparr>data_cache := (data_cache s1)[b :=
                    copy_block bs (data s1 ! unat t) (data_cache s1 ! b)],
                 dictionary := (dictionary s1)[b :=
                    (dictionary s1 ! b)\<lparr>valid := True, dirty := False, tag := t\<rparr>]\<rparr>"


text \<open>As \<open>ref_counts_stamped\<close>, but nothing is said of entry \<open>b\<close> (filled, not yet stamped).\<close>

definition stamped_except :: "nat \<Rightarrow> sim \<Rightarrow> bool" where
  "stamped_except b s \<longleftrightarrow>
     (\<forall>i \<in> {0..<length (dictionary s)}. i \<noteq> b \<and> valid (dictionary s ! i) \<longrightarrow>
        ref_count (dictionary s ! i) < current_ref_count s)
     \<and> (\<forall>i \<in> {0..<length (dictionary s)}. \<forall>j \<in> {0..<length (dictionary s)}.
          i \<noteq> b \<and> j \<noteq> b \<and> valid (dictionary s ! i) \<and> valid (dictionary s ! j) \<and> i \<noteq> j \<longrightarrow>
            ref_count (dictionary s ! i) \<noteq> ref_count (dictionary s ! j))"

text \<open>The shape that every reachable cache has: extents, tags within \<open>data\<close>, no tag twice.\<close>

definition structural :: "nat \<Rightarrow> sim \<Rightarrow> bool" where
  "structural bs s \<longleftrightarrow> well_formed bs s \<and> tags_in_range bs s \<and> unique_tags s"

text \<open>No valid entry holds block \<open>t\<close>.\<close>

definition absent :: "nat \<Rightarrow> sim \<Rightarrow> bool" where
  "absent t s \<longleftrightarrow> (\<forall>e \<in> set (dictionary s). \<not> (valid e \<and> unat (tag e) = t))"

text \<open>
  From \<open>s\<close> to \<open>s'\<close> no payload has newly come to differ from its memory block, and the
  entries that differ have kept their dirty flag.
\<close>

definition no_new_divergence :: "sim \<Rightarrow> sim \<Rightarrow> bool" where
  "no_new_divergence s s' \<longleftrightarrow>
     (\<forall>i \<in> {0..<length (dictionary s')}.
        diverged s' i \<longrightarrow> diverged s i \<and> dirty (dictionary s' ! i) = dirty (dictionary s ! i))"

text \<open>The address of a read or a write is a word of data memory.\<close>

fun op_addressable :: "nat \<Rightarrow> cache_op \<Rightarrow> bool" where
  "op_addressable bs (Read a) \<longleftrightarrow> unat a < DATA_SIZE bs * bs"
| "op_addressable bs (Write a v) \<longleftrightarrow> unat a < DATA_SIZE bs * bs"
| "op_addressable bs Evict \<longleftrightarrow> True"
| "op_addressable bs Flush \<longleftrightarrow> True"

text \<open>
  From \<open>s\<close> to \<open>s'\<close> one valid entry has been stamped with the \<open>current_ref_count\<close> of
  \<open>s\<close>, and the counter has been incremented.
\<close>

definition stamped_by_access :: "sim \<Rightarrow> sim \<Rightarrow> bool" where
  "stamped_by_access s s' \<longleftrightarrow>
     current_ref_count s' = current_ref_count s + 1
     \<and> (\<exists>b \<in> {0..<length (dictionary s')}.
          valid (dictionary s' ! b) \<and> ref_count (dictionary s' ! b) = current_ref_count s)"

text \<open>
  \<open>s\<close> and \<open>t\<close> agree on everything but the contents of \<open>registers\<close> at the indices
  \<open>REGISTERS\<close> and beyond (the list \<open>registers\<close> may be longer than the register file:
  what follows the first \<open>REGISTERS\<close> elements stands for whatever lies outside it).
\<close>

definition same_register_file :: "sim \<Rightarrow> sim \<Rightarrow> bool" where
  "same_register_file s t \<longleftrightarrow>
     t = s\<lparr>registers := registers t\<rparr>
     \<and> take REGISTERS (registers t) = take REGISTERS (registers s)"

text \<open>Two outcomes of a phase: the same fault, or the same next phase and such states.\<close>

definition same_outcome :: "fault + Phase \<times> sim \<Rightarrow> fault + Phase \<times> sim \<Rightarrow> bool" where
  "same_outcome x y =
     (case x of
        Inl f \<Rightarrow> (case y of Inl g \<Rightarrow> f = g | Inr _ \<Rightarrow> False)
      | Inr (p, s') \<Rightarrow>
          (case y of Inl _ \<Rightarrow> False | Inr (q, t') \<Rightarrow> p = q \<and> same_register_file s' t'))"

text \<open>
  Two states for instantiating statements about register accesses: the latches hold
  \<open>MOVE [R15], R15\<close> (mode 5), respectively \<open>ADD R15, #0\<close> with 7 in \<open>ALU_z\<close>.
\<close>

definition move_latched :: sim where
  "move_latched = startup 1 8\<lparr>IR0 := 0xB7, IR1 := 0xFC\<rparr>"

definition add_latched :: sim where
  "add_latched = startup 1 8\<lparr>IR0 := 0x03, IR1 := 0xC0, ALU_z := 7\<rparr>"

section \<open>Register indices\<close>

lemma nibble_index_bound: "unat ((x::byte) AND 0x0F) < 16"
  using word_and_le1 [of x 15] by (simp add: word_le_nat_alt)

section \<open>The decoder\<close>

lemma mode_values: "mode s \<in> {0, 1, 2, 3, 4, 5, 6, 7}"
proof -
  define k where "k = unat (mode s)"
  have "k \<le> unat (7 :: byte)"
    unfolding k_def mode_def using word_and_le1 [of "drop_bit 2 (IR0 s)" 7]
    by (simp add: word_le_nat_alt)
  then have "k \<in> {7, 6, 5, 4} \<or> k \<in> {3, 2, 1, 0}"
    by (simp; arith)
  moreover have "mode s = of_nat k" by (simp add: k_def)
  ultimately show ?thesis by auto
qed

text \<open>
  Claim C3, as stated, fails: the instruction word \<open>0xB400\<close> is a MOVE (opcode 5) with
  mode 5, and \<open>decode_instr\<close> forwards it to \<open>CALCULATE_EA\<close>.
\<close>

theorem move_mode5_counterexample:
  "opcode (startup 1 8\<lparr>IR0 := 0xB4, IR1 := 0x00\<rparr>) = MOVE_OPCODE
   \<and> mode (startup 1 8\<lparr>IR0 := 0xB4, IR1 := 0x00\<rparr>) = 5
   \<and> fst (decode_instr (startup 1 8\<lparr>IR0 := 0xB4, IR1 := 0x00\<rparr>)) = CALCULATE_EA"
  by (simp add: decode_instr_def opcode_def mode_def opcode_of_def)

text \<open>
  Claim C3, amended.  For every MOVE instruction the decoder answers \<open>ILLEGAL_OPCODE\<close>
  exactly when bit 1 of the mode is set (modes 2, 3, 6, 7) and forwards the
  instruction to \<open>CALCULATE_EA\<close> for the modes 0, 1, 4 and 5, leaving the state as
  it is: mode 5 is accepted.
\<close>

theorem move_decode_bit1_rule:
  "opcode s = MOVE_OPCODE \<Longrightarrow>
     (fst (decode_instr s) = ILLEGAL_OPCODE \<longleftrightarrow> mode s \<in> {2, 3, 6, 7})
     \<and> (fst (decode_instr s) = CALCULATE_EA \<longleftrightarrow> mode s \<in> {0, 1, 4, 5})
     \<and> snd (decode_instr s) = s"
  using mode_values [of s] by (auto simp add: decode_instr_def)

theorem move_decode_bit1_rule_witness:
  "opcode (startup 1 8\<lparr>IR0 := 0xB8\<rparr>) = MOVE_OPCODE
   \<and> mode (startup 1 8\<lparr>IR0 := 0xB8\<rparr>) = 6
   \<and> fst (decode_instr (startup 1 8\<lparr>IR0 := 0xB8\<rparr>)) = ILLEGAL_OPCODE"
proof -
  have m: "opcode (startup 1 8\<lparr>IR0 := 0xB8\<rparr>) = MOVE_OPCODE"
    by (simp add: opcode_def opcode_of_def)
  have "mode (startup 1 8\<lparr>IR0 := 0xB8\<rparr>) = 6"
    by (simp add: mode_def)
  with m move_decode_bit1_rule [OF m] show ?thesis by simp
qed

lemma code_startup: "code (startup cb bs) = replicate CODE_SIZE (MEM_FILLER, MEM_FILLER)"
  by (simp add: startup_def initialize_system_def static_storage_def)

lemma PC_startup: "PC (startup cb bs) = 0"
  by (simp add: startup_def initialize_system_def)

lemma fetch_filler:
  assumes "unat (PC s) < CODE_SIZE" "code s ! unat (PC s) = (MEM_FILLER, MEM_FILLER)"
  shows "fetch_instr s
         = (DECODE_INSTR, s\<lparr>MAR := PC s, MDR := 0xFFFF, IR0 := 0xFF, IR1 := 0xFF\<rparr>)"
  using assms by (simp add: fetch_instr_def MEM_FILLER_def)

lemma decode_filler: "IR0 s = 0xFF \<Longrightarrow> decode_instr s = (ILLEGAL_OPCODE, s)"
  by (simp add: decode_instr_def opcode_def mode_def opcode_of_def)

text \<open>
  Claim C7.  The instruction word \<open>0xFFFF\<close> decodes to \<open>ILLEGAL_OPCODE\<close>;
  \<open>initialize_system\<close> fills every word of code memory with it; and a simulator whose
  program counter points at such a word (inside code memory) stops with
  \<open>ILLEGAL_OPCODE\<close> after the fetch and the decode, whatever the bound on the number
  of phases beyond two.
\<close>

theorem filler_word_halts:
  "(IR0 s = MEM_FILLER \<and> IR1 s = MEM_FILLER \<longrightarrow> decode_instr s = (ILLEGAL_OPCODE, s))
   \<and> (\<forall>i < CODE_SIZE. code (startup cb bs) ! i = (MEM_FILLER, MEM_FILLER))
   \<and> (unat (PC s) < CODE_SIZE \<and> code s ! unat (PC s) = (MEM_FILLER, MEM_FILLER) \<longrightarrow>
        run_phases bs (Suc (Suc n)) FETCH_INSTR s =
          Inr (ILLEGAL_OPCODE, s\<lparr>MAR := PC s, MDR := 0xFFFF, IR0 := 0xFF, IR1 := 0xFF\<rparr>))"
proof (intro conjI impI allI)
  assume "IR0 s = MEM_FILLER \<and> IR1 s = MEM_FILLER"
  then show "decode_instr s = (ILLEGAL_OPCODE, s)" by (simp add: decode_filler MEM_FILLER_def)
next
  fix i assume "i < CODE_SIZE"
  then show "code (startup cb bs) ! i = (MEM_FILLER, MEM_FILLER)" by (simp add: code_startup)
next
  assume a: "unat (PC s) < CODE_SIZE \<and> code s ! unat (PC s) = (MEM_FILLER, MEM_FILLER)"
  have r: "running FETCH_INSTR" "running DECODE_INSTR" "\<not> running ILLEGAL_OPCODE"
    by (simp_all add: running_def)
  show "run_phases bs (Suc (Suc n)) FETCH_INSTR s =
          Inr (ILLEGAL_OPCODE, s\<lparr>MAR := PC s, MDR := 0xFFFF, IR0 := 0xFF, IR1 := 0xFF\<rparr>)"
    using a r by (cases n) (simp_all add: control_unit_def fetch_filler decode_filler)
qed

theorem filler_word_halts_witness:
  "run_phases 8 2 FETCH_INSTR (startup 1 8) =
     Inr (ILLEGAL_OPCODE, startup 1 8\<lparr>MAR := 0, MDR := 0xFFFF, IR0 := 0xFF, IR1 := 0xFF\<rparr>)
   \<and> decode_instr (startup 1 8\<lparr>IR0 := 0xFF, IR1 := 0xFF\<rparr>)
       = (ILLEGAL_OPCODE, startup 1 8\<lparr>IR0 := 0xFF, IR1 := 0xFF\<rparr>)
   \<and> code (startup 1 8) ! 1023 = (0xFF, 0xFF)"
proof -
  have p: "unat (PC (startup 1 8)) < CODE_SIZE" by (simp add: PC_startup CODE_SIZE_def)
  note t = filler_word_halts [where s = "startup 1 8\<lparr>IR0 := 0xFF, IR1 := 0xFF\<rparr>"
      and cb = 1 and bs = 8 and n = 0]
  note u = filler_word_halts [where s = "startup 1 8" and cb = 1 and bs = 8 and n = 0]
  from t have 1: "decode_instr (startup 1 8\<lparr>IR0 := 0xFF, IR1 := 0xFF\<rparr>)
       = (ILLEGAL_OPCODE, startup 1 8\<lparr>IR0 := 0xFF, IR1 := 0xFF\<rparr>)"
    by (simp add: MEM_FILLER_def)
  from u have 2: "code (startup 1 8) ! 1023 = (0xFF, 0xFF)"
    by (simp add: MEM_FILLER_def CODE_SIZE_def)
  from u have 0: "code (startup 1 8) ! 0 = (0xFF, 0xFF)"
    by (simp add: MEM_FILLER_def CODE_SIZE_def)
  from u p 0 have 3: "run_phases 8 2 FETCH_INSTR (startup 1 8) =
     Inr (ILLEGAL_OPCODE, startup 1 8\<lparr>MAR := 0, MDR := 0xFFFF, IR0 := 0xFF, IR1 := 0xFF\<rparr>)"
    by (simp add: PC_startup MEM_FILLER_def CODE_SIZE_def numeral_2_eq_2)
  from 1 2 3 show ?thesis by simp
qed

section \<open>Encoding against decoding\<close>

text \<open>
  Claim C2 fails on the code at \<open>ADD R1, 5\<close> (opcode ADD, type 0, reg1 1, reg2 0,
  immediate 5): \<open>encode\<close> keeps \<open>immediate & 0x03\<close> only and emits the bytes \<open>00 41\<close>,
  from which \<open>extract_literal\<close> reads the literal 1, not 5.
\<close>

theorem encode_literal_not_recovered:
  "encode \<lparr>instr_opcode = ASM_ADD, instr_type = 0, reg1 = 1, reg2 = 0, immediate = 5\<rparr>
     = (0x00, 0x41)
   \<and> extract_literal (s\<lparr>IR0 := 0x00, IR1 := 0x41\<rparr>) = 1
   \<and> (scast (extract_literal (s\<lparr>IR0 := 0x00, IR1 := 0x41\<rparr>)) :: ushort) \<noteq> 5"
  by (simp add: encode_def extract_literal_def)

section \<open>The range check of the cache\<close>

lemma data_area_words:
  assumes "0 < bs" "bs \<le> 1024"
  shows "2 \<le> DATA_SIZE bs * bs \<and> DATA_SIZE bs * bs \<le> 1024"
proof -
  from assms have d: "1 \<le> 1024 div bs" by (simp add: Suc_leI div_greater_zero_iff)
  have "bs = 1 \<or> 2 \<le> bs" using assms by arith
  then have "2 \<le> (1024 div bs) * bs"
  proof
    assume "bs = 1" then show ?thesis by simp
  next
    assume "2 \<le> bs"
    moreover have "bs \<le> (1024 div bs) * bs" using d by simp
    ultimately show ?thesis by arith
  qed
  then show ?thesis by (simp add: DATA_SIZE_def)
qed

lemma last_admitted_tag:
  assumes "0 < bs" "bs \<le> 1024" "unat a = DATA_SIZE bs * bs * WORD_SIZE - 2"
  shows "unat a < DATA_SIZE bs * bs * 2" and "DATA_SIZE bs \<le> addr2tag bs a"
proof -
  from data_area_words [OF assms(1,2)]
  have w: "2 \<le> DATA_SIZE bs * bs" "DATA_SIZE bs * bs \<le> 1024"
    by simp_all
  from w assms(3) show "unat a < DATA_SIZE bs * bs * 2" by (simp add: WORD_SIZE_def)
  have "DATA_SIZE bs * bs \<le> unat a" using w assms(3) by (simp add: WORD_SIZE_def)
  then have "DATA_SIZE bs * bs div bs \<le> unat a div bs" by (rule div_le_mono)
  then show "DATA_SIZE bs \<le> addr2tag bs a" using assms(1) by (simp add: addr2tag_def)
qed

lemma unat_tag_of_addr: "unat (of_nat (addr2tag bs a) :: ushort) = addr2tag bs a"
  unfolding addr2tag_def by (rule le_unat_uoi [of _ a]) simp

lemma fault_is_out_of_bounds: "(f :: fault) = ArrayOutOfBounds"
  by (cases f) simp

lemma fetch_block_outside:
  "DATA_SIZE bs \<le> unat t \<Longrightarrow> fetch_block bs t s = Inl ArrayOutOfBounds"
  by (simp add: fetch_block_def fault_is_out_of_bounds split: sum.splits option.splits)

lemma beyond_range_illegal_address:
  "DATA_SIZE bs * bs * 2 \<le> unat (MAR s) \<Longrightarrow>
     cache_read bs s = Inr (ILLEGAL_ADDRESS, s) \<and> cache_write bs s = Inr (ILLEGAL_ADDRESS, s)"
  by (simp add: cache_read_def cache_write_def)

text \<open>
  Claim C1 fails on the code.  For every block size from 1 to 1024, the address
  \<open>DATA_SIZE * BLOCK_SIZE * WORD_SIZE - 2\<close> passes the range check of \<open>cache_read\<close> and
  \<open>cache_write\<close>, but its block index \<open>MAR / BLOCK_SIZE\<close> is not below \<open>DATA_SIZE\<close>:
  when the block is not in the cache, the access reads \<open>data[tag]\<close> outside the array.
\<close>

theorem range_check_admits_block_outside_data:
  assumes "0 < bs" "bs \<le> 1024" "unat (MAR s) = DATA_SIZE bs * bs * WORD_SIZE - 2"
  shows "unat (MAR s) < DATA_SIZE bs * bs * 2 \<and> DATA_SIZE bs \<le> addr2tag bs (MAR s)
     \<and> (find_block (addr2tag bs (MAR s)) s = None \<longrightarrow>
          cache_read bs s = Inl ArrayOutOfBounds \<and> cache_write bs s = Inl ArrayOutOfBounds)"
proof -
  note t = last_admitted_tag [OF assms]
  have "fetch_block bs (of_nat (addr2tag bs (MAR s))) s = Inl ArrayOutOfBounds"
    using t(2) by (simp add: fetch_block_outside unat_tag_of_addr)
  then show ?thesis using t
    by (simp add: cache_read_def cache_write_def locate_block_def)
qed

theorem range_check_admits_block_outside_data_witness:
  "cache_read 8 (startup 1 8\<lparr>MAR := 2046\<rparr>) = Inl ArrayOutOfBounds
   \<and> cache_write 8 (startup 1 8\<lparr>MAR := 2046\<rparr>) = Inl ArrayOutOfBounds
   \<and> addr2tag 8 2046 = 255 \<and> DATA_SIZE 8 = 128"
proof -
  have f: "find_block (addr2tag 8 (MAR (startup 1 8\<lparr>MAR := 2046\<rparr>)))
             (startup 1 8\<lparr>MAR := 2046\<rparr>) = None"
    by (simp add: find_block_def startup_def initialize_system_def static_storage_def)
  have m: "unat (MAR (startup 1 8\<lparr>MAR := 2046\<rparr>)) = DATA_SIZE 8 * 8 * WORD_SIZE - 2"
    by (simp add: DATA_SIZE_def WORD_SIZE_def)
  show ?thesis
    using range_check_admits_block_outside_data [of 8 "startup 1 8\<lparr>MAR := 2046\<rparr>", OF _ _ m] f
    by (simp add: addr2tag_def DATA_SIZE_def)
qed

section \<open>What the phases leave alone\<close>

lemma same_cpu_refl: "same_cpu s s"
  by (simp add: same_cpu_def)

lemma same_cpu_trans: "same_cpu s s1 \<Longrightarrow> same_cpu s1 s2 \<Longrightarrow> same_cpu s s2"
  by (simp add: same_cpu_def)

lemma write_block_same_cpu: "write_block bs b s = Inr s' \<Longrightarrow> same_cpu s s'"
  by (auto simp: write_block_def same_cpu_def Let_def split: if_splits)

lemma removeLRU_same_cpu: "removeLRU bs s = Inr (b, s') \<Longrightarrow> same_cpu s s'"
  by (auto simp: removeLRU_def Let_def split: sum.splits dest: write_block_same_cpu)

lemma fetch_block_same_cpu: "fetch_block bs t s = Inr (b, s') \<Longrightarrow> same_cpu s s'"
  by (auto simp: fetch_block_def same_cpu_def split: sum.splits option.splits if_splits
      dest!: removeLRU_same_cpu)

lemma locate_block_same_cpu: "locate_block bs s = Inr (b, s') \<Longrightarrow> same_cpu s s'"
  by (auto simp: locate_block_def same_cpu_def split: option.splits dest!: fetch_block_same_cpu)

lemma cache_read_same_cpu: "cache_read bs s = Inr (ph, s') \<Longrightarrow> same_cpu s s'"
  by (auto simp: cache_read_def same_cpu_def Let_def split: if_splits sum.splits
      dest!: locate_block_same_cpu)

lemma cache_write_same_cpu: "cache_write bs s = Inr (ph, s') \<Longrightarrow> same_cpu s s'"
  by (auto simp: cache_write_def same_cpu_def Let_def split: if_splits sum.splits
      dest!: locate_block_same_cpu)



lemma get_reg1_cong: "IR0 s' = IR0 s \<Longrightarrow> IR1 s' = IR1 s \<Longrightarrow> get_reg1 s' = get_reg1 s"
  by (simp add: get_reg1_def)

lemma extract_literal_cong: "IR1 s' = IR1 s \<Longrightarrow> extract_literal s' = extract_literal s"
  by (simp add: extract_literal_def)

text \<open>What a phase leaves alone.\<close>

lemma fetch_operands_frame:
  assumes "fetch_operands bs s = Inr (ph, s')"
  shows "PC s' = PC s \<and> IR0 s' = IR0 s \<and> IR1 s' = IR1 s \<and> registers s' = registers s
         \<and> branch_count s' = branch_count s \<and> code s' = code s"
  using assms
  by (auto simp: fetch_operands_def Let_def same_cpu_def split: if_splits dest!: cache_read_same_cpu)

lemma fetch_operands_branch:
  assumes "opcode s = BRANCH_OPCODE"
  shows "fetch_operands bs s = Inr (EXECUTE_INSTR,
           s\<lparr>ALU_x := registers s ! unat (get_reg1 s), ALU_y := scast (extract_literal s)\<rparr>)"
  using assms by (simp add: fetch_operands_def is_alu_def)



lemma fetch_instr_frame:
  "PC (snd (fetch_instr s)) = PC s \<and> registers (snd (fetch_instr s)) = registers s
   \<and> branch_count (snd (fetch_instr s)) = branch_count s \<and> code (snd (fetch_instr s)) = code s"
  by (simp add: fetch_instr_def Let_def)

lemma decode_instr_state: "snd (decode_instr s) = s"
  by (simp add: decode_instr_def split: Opcode.splits)


lemma calculate_ea_frame:
  "fst (calculate_ea s) = FETCH_OPERANDS \<and> PC (snd (calculate_ea s)) = PC s
   \<and> IR0 (snd (calculate_ea s)) = IR0 s \<and> IR1 (snd (calculate_ea s)) = IR1 s
   \<and> registers (snd (calculate_ea s)) = registers s
   \<and> branch_count (snd (calculate_ea s)) = branch_count s \<and> code (snd (calculate_ea s)) = code s"
  by (simp add: calculate_ea_def)

lemma fetch_operands_move_phase:
  "opcode s = MOVE_OPCODE \<Longrightarrow> fetch_operands bs s = Inr (ph, s') \<Longrightarrow> ph \<in> {WRITE_BACK, ILLEGAL_ADDRESS}"
  by (auto simp: fetch_operands_def is_alu_def cache_read_def Let_def split: if_splits sum.splits)

lemma fetch_operands_other_phase:
  "opcode s \<noteq> MOVE_OPCODE \<Longrightarrow> fetch_operands bs s = Inr (ph, s') \<Longrightarrow>
    ph = EXECUTE_INSTR \<and> ALU_x s' = registers s ! unat (get_reg1 s)
    \<and> (opcode s = BRANCH_OPCODE \<longrightarrow> ALU_y s' = scast (extract_literal s))"
  by (auto simp: fetch_operands_def is_alu_def Let_def split: if_splits)

lemma execute_instr_frame:
  "PC (snd (execute_instr s)) = PC s \<and> IR0 (snd (execute_instr s)) = IR0 s
   \<and> IR1 (snd (execute_instr s)) = IR1 s \<and> registers (snd (execute_instr s)) = registers s
   \<and> code (snd (execute_instr s)) = code s"
  by (simp add: execute_instr_def count_branch_def Let_def split: Opcode.splits)




lemma registers_startup: "registers (startup cb bs) = replicate REGISTERS 0"
  by (simp add: startup_def initialize_system_def static_storage_def)

lemma branch_count_startup: "branch_count (startup cb bs) = 0"
  by (simp add: startup_def initialize_system_def static_storage_def)

lemma phases_running:
  "running FETCH_INSTR" "running DECODE_INSTR" "running CALCULATE_EA"
  "running FETCH_OPERANDS" "running EXECUTE_INSTR" "running WRITE_BACK"
  "\<not> running ILLEGAL_OPCODE" "\<not> running ILLEGAL_ADDRESS" "\<not> running INFINITE_LOOP"
  by (simp_all add: running_def)




section \<open>The infinite-loop guard\<close>

lemma run_phases_stopped: "\<not> running ph \<Longrightarrow> run_phases bs n ph s = Inr (ph, s)"
  by (cases n) simp_all

lemma run_phases_add:
  "run_phases bs (m + n) ph s =
     (case run_phases bs m ph s of Inl f \<Rightarrow> Inl f | Inr (ph', s') \<Rightarrow> run_phases bs n ph' s')"
proof (induction m arbitrary: ph s)
  case 0
  show ?case by simp
next
  case (Suc m)
  show ?case
  proof (cases "running ph")
    case True
    then show ?thesis by (simp add: Suc.IH split: sum.splits)
  next
    case False
    then show ?thesis by (simp add: run_phases_stopped)
  qed
qed

lemma self_jump_cong:
  "PC s' = PC s \<Longrightarrow> code s' = code s \<Longrightarrow> registers s' = registers s \<Longrightarrow>
     self_jump s' = self_jump s"
  by (simp add: self_jump_def fetch_instr_def Let_def opcode_def mode_def get_reg1_def)

lemma run_phases_5:
  "run_phases bs 5 ph s = run_phases bs (Suc (Suc (Suc (Suc (Suc 0))))) ph s"
  by (simp add: eval_nat_numeral)

lemma self_jump_phases:
  assumes "self_jump s"
  obtains x where "run_phases bs 3 FETCH_INSTR s = Inr (EXECUTE_INSTR, x)"
    "opcode x = BRANCH_OPCODE" "mode x = 0" "ALU_x x + 1 = PC s" "PC x = PC s"
    "code x = code s" "registers x = registers s" "branch_count x = branch_count s"
proof -
  define i where "i = snd (fetch_instr s)"
  from assms have pc: "unat (PC s) < CODE_SIZE" and op: "opcode i = BRANCH_OPCODE"
    and md: "mode i = 0" and tgt: "registers s ! unat (get_reg1 i) + 1 = PC s"
    by (simp_all add: self_jump_def i_def Let_def)
  from pc have f: "fetch_instr s = (DECODE_INSTR, i)"
    by (simp add: i_def fetch_instr_def Let_def)
  have d: "decode_instr i = (FETCH_OPERANDS, i)"
    using op md by (simp add: decode_instr_def)
  define x where "x = i\<lparr>ALU_x := registers i ! unat (get_reg1 i), ALU_y := scast (extract_literal i)\<rparr>"
  have o: "fetch_operands bs i = Inr (EXECUTE_INSTR, x)"
    unfolding x_def using op by (rule fetch_operands_branch)
  have "run_phases bs 3 FETCH_INSTR s = Inr (EXECUTE_INSTR, x)"
    using f d o by (simp add: eval_nat_numeral phases_running control_unit_def)
  moreover have "opcode x = BRANCH_OPCODE" "mode x = 0"
    using op md by (simp_all add: x_def opcode_def mode_def)
  moreover have "ALU_x x + 1 = PC s" "PC x = PC s" "code x = code s" "registers x = registers s"
     "branch_count x = branch_count s"
    using tgt fetch_instr_frame [of s] by (simp_all add: x_def i_def [symmetric])
  ultimately show thesis by (rule that)
qed

lemma self_jump_iteration:
  assumes "self_jump s" "branch_count s < BRANCH_LIMIT"
  shows "\<exists>s2. run_phases bs 5 FETCH_INSTR s = Inr (FETCH_INSTR, s2) \<and> self_jump s2
            \<and> branch_count s2 = branch_count s + 1"
proof -
  from assms(1) obtain x where x: "run_phases bs 3 FETCH_INSTR s = Inr (EXECUTE_INSTR, x)"
    "opcode x = BRANCH_OPCODE" "mode x = 0" "ALU_x x + 1 = PC s" "PC x = PC s"
    "code x = code s" "registers x = registers s" "branch_count x = branch_count s"
    by (rule self_jump_phases)
  let ?w = "x\<lparr>ALU_z := ALU_x x, branch_count := branch_count s + 1\<rparr>"
  have e: "execute_instr x = (WRITE_BACK, ?w)"
    using x assms(2) by (simp add: execute_instr_def count_branch_def)
  have ow: "opcode ?w = BRANCH_OPCODE" using x(2) by (simp add: opcode_def)
  have wb: "write_back bs ?w = Inr (FETCH_INSTR, ?w\<lparr>PC := PC s\<rparr>)"
    using ow x(4) by (simp add: write_back_def is_alu_def)
  have "run_phases bs (3 + 2) FETCH_INSTR s = Inr (FETCH_INSTR, ?w\<lparr>PC := PC s\<rparr>)"
    unfolding run_phases_add using x(1) e wb
    by (simp add: eval_nat_numeral phases_running control_unit_def)
  moreover have "self_jump (?w\<lparr>PC := PC s\<rparr>)"
    using assms(1) x self_jump_cong [of "?w\<lparr>PC := PC s\<rparr>" s] by simp
  ultimately show ?thesis by simp
qed

lemma self_jump_last:
  assumes "self_jump s" "branch_count s = BRANCH_LIMIT"
  shows "\<exists>s2. run_phases bs 4 FETCH_INSTR s = Inr (INFINITE_LOOP, s2)
            \<and> branch_count s2 = BRANCH_LIMIT + 1"
proof -
  from assms(1) obtain x where x: "run_phases bs 3 FETCH_INSTR s = Inr (EXECUTE_INSTR, x)"
    "opcode x = BRANCH_OPCODE" "mode x = 0" "ALU_x x + 1 = PC s" "PC x = PC s"
    "code x = code s" "registers x = registers s" "branch_count x = branch_count s"
    by (rule self_jump_phases)
  let ?w = "x\<lparr>ALU_z := ALU_x x, branch_count := branch_count s + 1\<rparr>"
  have e: "execute_instr x = (INFINITE_LOOP, ?w)"
    using x assms(2) by (simp add: execute_instr_def count_branch_def)
  have "run_phases bs (3 + 1) FETCH_INSTR s = Inr (INFINITE_LOOP, ?w)"
    unfolding run_phases_add using x(1) e
    by (simp add: phases_running control_unit_def)
  then show ?thesis using assms(2) by simp
qed

lemma self_jump_run:
  assumes "self_jump s" "branch_count s = BRANCH_LIMIT - int k"
  shows "\<exists>s2. run_phases bs (5 * k + 4) FETCH_INSTR s = Inr (INFINITE_LOOP, s2)
            \<and> branch_count s2 = BRANCH_LIMIT + 1"
  using assms
proof (induction k arbitrary: s)
  case 0
  then show ?case using self_jump_last [of s bs] by simp
next
  case (Suc k)
  from Suc.prems have "branch_count s < BRANCH_LIMIT" by simp
  with Suc.prems(1) obtain s1 where s1: "run_phases bs 5 FETCH_INSTR s = Inr (FETCH_INSTR, s1)"
    "self_jump s1" "branch_count s1 = branch_count s + 1"
    using self_jump_iteration by blast
  from s1(3) Suc.prems(2) have "branch_count s1 = BRANCH_LIMIT - int k" by simp
  with Suc.IH [OF s1(2)] obtain s2 where
    "run_phases bs (5 * k + 4) FETCH_INSTR s1 = Inr (INFINITE_LOOP, s2)"
    "branch_count s2 = BRANCH_LIMIT + 1" by blast
  moreover have "5 * Suc k + 4 = 5 + (5 * k + 4)" by simp
  ultimately show ?case using s1(1) by (simp only: run_phases_add) simp
qed

lemma execute_instr_count:
  "branch_count (snd (execute_instr s)) = branch_count s + (if counted_branch s then 1 else 0)
   \<and> (fst (execute_instr s) = INFINITE_LOOP \<longleftrightarrow>
        counted_branch s \<and> BRANCH_LIMIT < branch_count (snd (execute_instr s)))
   \<and> (fst (execute_instr s) \<noteq> INFINITE_LOOP \<longrightarrow> fst (execute_instr s) = WRITE_BACK)"
  by (simp add: execute_instr_def count_branch_def counted_branch_def Let_def
      split: Opcode.splits)

text \<open>
  Claim C8.  \<open>execute_instr\<close> adds one to \<open>branch_count\<close> for a jump and for a taken
  conditional branch, and nothing otherwise; it answers \<open>INFINITE_LOOP\<close> exactly when
  it has counted a branch and the count now exceeds \<open>BRANCH_LIMIT\<close>, which for a count
  that was within the limit before means: exactly when the count exceeds the limit
  afterwards.  A jump to itself, started with a count of zero, ends the control loop
  with \<open>INFINITE_LOOP\<close> after \<open>5 * 1000000 + 4\<close> phases, with \<open>branch_count = 1000001\<close>.
\<close>

theorem infinite_loop_guard:
  "branch_count (snd (execute_instr s)) = branch_count s + (if counted_branch s then 1 else 0)
   \<and> (fst (execute_instr s) = INFINITE_LOOP \<longleftrightarrow>
        counted_branch s \<and> BRANCH_LIMIT < branch_count (snd (execute_instr s)))
   \<and> (branch_count s \<le> BRANCH_LIMIT \<longrightarrow>
        (fst (execute_instr s) = INFINITE_LOOP \<longleftrightarrow>
           BRANCH_LIMIT < branch_count (snd (execute_instr s))))
   \<and> (self_jump t \<and> branch_count t = 0 \<longrightarrow>
        (\<exists>t'. run_phases bs (5 * 1000000 + 4) FETCH_INSTR t = Inr (INFINITE_LOOP, t')
              \<and> branch_count t' = 1000001))"
proof (intro conjI impI)
  show "branch_count (snd (execute_instr s)) = branch_count s + (if counted_branch s then 1 else 0)"
    using execute_instr_count [of s] by simp
  show "fst (execute_instr s) = INFINITE_LOOP \<longleftrightarrow>
        counted_branch s \<and> BRANCH_LIMIT < branch_count (snd (execute_instr s))"
    using execute_instr_count [of s] by simp
next
  assume "branch_count s \<le> BRANCH_LIMIT"
  then show "fst (execute_instr s) = INFINITE_LOOP \<longleftrightarrow>
           BRANCH_LIMIT < branch_count (snd (execute_instr s))"
    using execute_instr_count [of s] by (auto split: if_splits)
next
  assume "self_jump t \<and> branch_count t = 0"
  then have "self_jump t" "branch_count t = BRANCH_LIMIT - int 1000000"
    by (simp_all add: BRANCH_LIMIT_def)
  from self_jump_run [OF this, of bs]
  show "\<exists>t'. run_phases bs (5 * 1000000 + 4) FETCH_INSTR t = Inr (INFINITE_LOOP, t')
              \<and> branch_count t' = 1000001"
    by (simp add: BRANCH_LIMIT_def)
qed

theorem infinite_loop_guard_witness:
  "self_jump jump_program \<and> branch_count jump_program = 0
   \<and> (\<exists>t'. run_phases 8 (5 * 1000000 + 4) FETCH_INSTR jump_program = Inr (INFINITE_LOOP, t')
              \<and> branch_count t' = 1000001)
   \<and> counted_branch (jump_program\<lparr>IR0 := 0xE0, IR1 := 0x40, branch_count := 1000000\<rparr>)
   \<and> fst (execute_instr (jump_program\<lparr>IR0 := 0xE0, IR1 := 0x40, branch_count := 1000000\<rparr>))
       = INFINITE_LOOP
   \<and> branch_count (snd (execute_instr
         (jump_program\<lparr>IR0 := 0xE0, IR1 := 0x40, branch_count := 1000000\<rparr>))) = 1000001"
proof -
  let ?s = "jump_program\<lparr>IR0 := 0xE0, IR1 := 0x40, branch_count := 1000000\<rparr>"
  have j: "self_jump jump_program"
    by (simp add: self_jump_def jump_program_def fetch_instr_def code_startup registers_startup
        CODE_SIZE_def REGISTERS_def opcode_def opcode_of_def mode_def get_reg1_def)
  have b: "branch_count jump_program = 0"
    by (simp add: jump_program_def branch_count_startup)
  have c: "counted_branch ?s"
    by (simp add: counted_branch_def opcode_def opcode_of_def mode_def)
  have l: "branch_count ?s \<le> BRANCH_LIMIT" by (simp add: BRANCH_LIMIT_def)
  from infinite_loop_guard [of ?s jump_program 8] j b c l show ?thesis
    by (simp add: BRANCH_LIMIT_def)
qed

section \<open>The block copy and the scans of the dictionary\<close>

lemma copy_block_length [simp]: "length (copy_block bs src dst) = length dst"
proof -
  have "length (fold (\<lambda>i d. d[i := src ! i]) xs dst) = length dst" for xs
    by (induction xs arbitrary: dst) simp_all
  then show ?thesis by (simp add: copy_block_def)
qed

lemma copy_fold_nth:
  "j < length dst \<Longrightarrow>
     fold (\<lambda>i d. d[i := src ! i]) xs dst ! j = (if j \<in> set xs then src ! j else dst ! j)"
  by (induction xs arbitrary: dst) (auto simp: nth_list_update)

lemma copy_block_whole:
  assumes "length src = bs" "length dst = bs"
  shows "copy_block bs src dst = src"
proof (rule nth_equalityI)
  show "length (copy_block bs src dst) = length src" using assms by simp
  fix j assume "j < length (copy_block bs src dst)"
  then have "j < length dst" by simp
  then show "copy_block bs src dst ! j = src ! j"
    using assms by (simp add: copy_block_def copy_fold_nth)
qed

lemma first_free_Some:
  "first_free es i = Some k \<Longrightarrow>
     i \<le> k \<and> k - i < length es \<and> \<not> valid (es ! (k - i)) \<and> (\<forall>j < k - i. valid (es ! j))"
proof (induction es arbitrary: i)
  case Nil
  then show ?case by simp
next
  case (Cons e es)
  show ?case
  proof (cases "valid e")
    case False
    with Cons.prems show ?thesis by simp
  next
    case True
    with Cons.prems have "first_free es (Suc i) = Some k" by simp
    from Cons.IH [OF this] have h: "Suc i \<le> k" "k - Suc i < length es"
      "\<not> valid (es ! (k - Suc i))" "\<forall>j < k - Suc i. valid (es ! j)" by simp_all
    then have "k - i = Suc (k - Suc i)" by arith
    with h True show ?thesis by (auto simp: nth_Cons')
  qed
qed


lemma find_scan_Some:
  "find_scan es i t = Some k \<Longrightarrow>
     i \<le> k \<and> k - i < length es \<and> valid (es ! (k - i)) \<and> unat (tag (es ! (k - i))) = t"
proof (induction es arbitrary: i)
  case Nil
  then show ?case by simp
next
  case (Cons e es)
  show ?case
  proof (cases "valid e \<and> unat (tag e) = t")
    case True
    with Cons.prems show ?thesis by simp
  next
    case False
    with Cons.prems have "find_scan es (Suc i) t = Some k" by auto
    from Cons.IH [OF this] have h: "Suc i \<le> k" "k - Suc i < length es"
      "valid (es ! (k - Suc i))" "unat (tag (es ! (k - Suc i))) = t" by simp_all
    then have "k - i = Suc (k - Suc i)" by arith
    with h show ?thesis by (auto simp: nth_Cons')
  qed
qed

lemma find_scan_None:
  "find_scan es i t = None \<longleftrightarrow> (\<forall>e \<in> set es. \<not> (valid e \<and> unat (tag e) = t))"
  by (induction es arbitrary: i) auto

lemma lru_scan_result:
  assumes "lru_scan es i (L0, b0) = (L, b)"
  shows "(L = L0 \<and> b = b0 \<and> (\<forall>e \<in> set es. valid e \<longrightarrow> \<not> ref_count e < L0))
       \<or> (i \<le> b \<and> b - i < length es \<and> valid (es ! (b - i)) \<and> ref_count (es ! (b - i)) = L
           \<and> L < L0 \<and> (\<forall>e \<in> set es. valid e \<longrightarrow> L \<le> ref_count e))"
  using assms
proof (induction es arbitrary: i L0 b0)
  case Nil
  then show ?case by simp
next
  case (Cons e es)
  show ?case
  proof (cases "valid e \<and> ref_count e < L0")
    case True
    with Cons.prems have "lru_scan es (Suc i) (ref_count e, i) = (L, b)" by simp
    from Cons.IH [OF this] show ?thesis
    proof
      assume "L = ref_count e \<and> b = i \<and> (\<forall>e' \<in> set es. valid e' \<longrightarrow> \<not> ref_count e' < ref_count e)"
      with True show ?thesis by (auto simp: not_less)
    next
      assume h: "Suc i \<le> b \<and> b - Suc i < length es \<and> valid (es ! (b - Suc i))
          \<and> ref_count (es ! (b - Suc i)) = L \<and> L < ref_count e
          \<and> (\<forall>e' \<in> set es. valid e' \<longrightarrow> L \<le> ref_count e')"
      then have "b - i = Suc (b - Suc i)" by arith
      with h True show ?thesis by (auto simp: nth_Cons')
    qed
  next
    case False
    with Cons.prems have "lru_scan es (Suc i) (L0, b0) = (L, b)" by auto
    from Cons.IH [OF this] show ?thesis
    proof
      assume "L = L0 \<and> b = b0 \<and> (\<forall>e' \<in> set es. valid e' \<longrightarrow> \<not> ref_count e' < L0)"
      with False show ?thesis by auto
    next
      assume h: "Suc i \<le> b \<and> b - Suc i < length es \<and> valid (es ! (b - Suc i))
          \<and> ref_count (es ! (b - Suc i)) = L \<and> L < L0
          \<and> (\<forall>e' \<in> set es. valid e' \<longrightarrow> L \<le> ref_count e')"
      then have "b - i = Suc (b - Suc i)" by arith
      moreover from h False have "valid e \<longrightarrow> L \<le> ref_count e" by auto
      ultimately show ?thesis using h by (auto simp: nth_Cons')
    qed
  qed
qed

section \<open>Effects of the cache routines\<close>

lemma write_block_effect:
  assumes "write_block bs b s = Inr s'"
  defines "e \<equiv> dictionary s ! b"
  shows "data_cache s' = data_cache s"
    and "current_ref_count s' = current_ref_count s"
    and "dictionary s' = (if valid e
           then (dictionary s)[b := e\<lparr>valid := False, dirty := False, ref_count := 0\<rparr>]
           else dictionary s)"
    and "data s' = (if valid e \<and> dirty e
           then (data s)[unat (tag e) :=
                  copy_block bs (data_cache s ! b) (data s ! unat (tag e))]
           else data s)"
    and "valid e \<and> dirty e \<longrightarrow> unat (tag e) < DATA_SIZE bs"
  using assms(1) unfolding e_def
  by (auto simp: write_block_def Let_def split: if_splits)

lemma well_formed_nth:
  assumes "well_formed bs s"
  shows "i < length (dictionary s) \<Longrightarrow> length (data_cache s ! i) = bs"
    and "k < DATA_SIZE bs \<Longrightarrow> length (data s ! k) = bs"
  using assms by (simp_all add: well_formed_def)

lemma write_block_data:
  assumes "write_block bs b s = Inr s'" "well_formed bs s" "b < length (dictionary s)"
  shows "data s' = (if valid (dictionary s ! b) \<and> dirty (dictionary s ! b)
           then (data s)[unat (tag (dictionary s ! b)) := data_cache s ! b]
           else data s)"
  using write_block_effect(4,5) [OF assms(1)] well_formed_nth [OF assms(2)] assms(3)
  by (simp add: copy_block_whole)

lemma set_update_lengths:
  "\<forall>x \<in> set xs. length x = n \<Longrightarrow> length y = n \<Longrightarrow> \<forall>x \<in> set (xs[k := y]). length x = n"
  using set_update_subset_insert [of xs k y] by auto

lemma write_block_well_formed:
  assumes "write_block bs b s = Inr s'" "well_formed bs s" "b < length (dictionary s)"
  shows "well_formed bs s'"
proof -
  have l: "length (data_cache s ! b) = bs" using well_formed_nth(1) [OF assms(2,3)] .
  have d: "\<forall>blk \<in> set (data s). length blk = bs" using assms(2) by (simp add: well_formed_def)
  have "\<forall>blk \<in> set (data s'). length blk = bs"
  proof (cases "valid (dictionary s ! b) \<and> dirty (dictionary s ! b)")
    case True
    then have "data s' = (data s)[unat (tag (dictionary s ! b)) := data_cache s ! b]"
      using write_block_data [OF assms] by simp
    with set_update_lengths [OF d l] show ?thesis by simp
  next
    case False
    then have "data s' = data s" using write_block_data [OF assms] by auto
    with d show ?thesis by simp
  qed
  moreover have "length (data s') = length (data s)"
    using write_block_data [OF assms] by simp
  moreover have "length (dictionary s') = length (dictionary s)"
    using write_block_effect(3) [OF assms(1)] by simp
  ultimately show ?thesis
    using assms(2) write_block_effect(1) [OF assms(1)]
    by (auto simp: well_formed_def)
qed

lemma lru_scan_index:
  "es \<noteq> [] \<Longrightarrow> snd (lru_scan es 0 (L0, 0)) < length es"
  using lru_scan_result [of es 0 L0 0 "fst (lru_scan es 0 (L0, 0))" "snd (lru_scan es 0 (L0, 0))"]
  by auto

lemma removeLRU_is_write_block:
  "removeLRU bs s = Inr (b, s') \<longleftrightarrow>
     b = snd (lru_scan (dictionary s) 0 (0xFFFFFFFF, 0)) \<and> write_block bs b s = Inr s'"
  by (auto simp: removeLRU_def Let_def split: sum.splits)


lemma fetch_block_free:
  "first_free (dictionary s) 0 = Some b \<Longrightarrow>
     fetch_block bs t s =
       (if unat t < DATA_SIZE bs then Inr (b, fill_block bs t b s) else Inl ArrayOutOfBounds)"
  by (simp add: fetch_block_def fill_block_def)

lemma fetch_block_evict:
  "first_free (dictionary s) 0 = None \<Longrightarrow> removeLRU bs s = Inr (b, s1) \<Longrightarrow>
     fetch_block bs t s =
       (if unat t < DATA_SIZE bs then Inr (b, fill_block bs t b s1) else Inl ArrayOutOfBounds)"
  by (simp add: fetch_block_def fill_block_def)

lemma fetch_block_evict_fault:
  "first_free (dictionary s) 0 = None \<Longrightarrow> removeLRU bs s = Inl f \<Longrightarrow>
     fetch_block bs t s = Inl f"
  by (simp add: fetch_block_def)

section \<open>The fill\<close>

lemma fill_block_fields:
  "data (fill_block bs t b s1) = data s1"
  "current_ref_count (fill_block bs t b s1) = current_ref_count s1"
  "cache_hits (fill_block bs t b s1) = cache_hits s1"
  "MDR (fill_block bs t b s1) = MDR s1"
  "data_cache (fill_block bs t b s1) =
     (data_cache s1)[b := copy_block bs (data s1 ! unat t) (data_cache s1 ! b)]"
  "dictionary (fill_block bs t b s1) =
     (dictionary s1)[b := (dictionary s1 ! b)\<lparr>valid := True, dirty := False, tag := t\<rparr>]"
  by (simp_all add: fill_block_def)

lemma fetch_block_cases:
  assumes "fetch_block bs t s = Inr (b, s')"
  obtains (free) "first_free (dictionary s) 0 = Some b" "unat t < DATA_SIZE bs"
      "s' = fill_block bs t b s"
  | (evict) s1 where "first_free (dictionary s) 0 = None" "removeLRU bs s = Inr (b, s1)"
      "unat t < DATA_SIZE bs" "s' = fill_block bs t b s1"
proof (cases "first_free (dictionary s) 0")
  case (Some k)
  from assms fetch_block_free [OF Some, of bs t]
  have "k = b" "unat t < DATA_SIZE bs" "s' = fill_block bs t b s"
    by (auto split: if_splits)
  with Some show thesis by (intro free) simp_all
next
  case None
  show thesis
  proof (cases "removeLRU bs s")
    case (Inl f)
    with assms fetch_block_evict_fault [OF None Inl, of t] show thesis by simp
  next
    case (Inr p)
    obtain b1 s1 where p: "p = (b1, s1)" by (cases p)
    from assms fetch_block_evict [OF None Inr [unfolded p], of t]
    have "b1 = b" "unat t < DATA_SIZE bs" "s' = fill_block bs t b s1"
      by (auto split: if_splits)
    with None Inr p show thesis by (intro evict [of s1]) simp_all
  qed
qed


lemma fill_block_entry:
  assumes "well_formed bs s1" "b < length (dictionary s1)" "unat t < DATA_SIZE bs"
  shows "dictionary (fill_block bs t b s1) ! b
           = (dictionary s1 ! b)\<lparr>valid := True, dirty := False, tag := t\<rparr>"
    and "data_cache (fill_block bs t b s1) ! b = data s1 ! unat t"
    and "j \<noteq> b \<Longrightarrow> dictionary (fill_block bs t b s1) ! j = dictionary s1 ! j"
    and "j \<noteq> b \<Longrightarrow> data_cache (fill_block bs t b s1) ! j = data_cache s1 ! j"
proof -
  have "length (data s1 ! unat t) = bs" "length (data_cache s1 ! b) = bs"
    "b < length (data_cache s1)"
    using assms by (simp_all add: well_formed_def)
  then show "data_cache (fill_block bs t b s1) ! b = data s1 ! unat t"
    by (simp add: fill_block_fields copy_block_whole)
qed (simp_all add: fill_block_fields assms(2))


lemma data_startup: "data (startup cb bs) = replicate (DATA_SIZE bs) (replicate bs (MEM_FILLER, MEM_FILLER))"
  by (simp add: startup_def initialize_system_def static_storage_def)

lemma data_cache_startup: "data_cache (startup cb bs) = replicate cb (replicate bs (MEM_FILLER, MEM_FILLER))"
  by (simp add: startup_def initialize_system_def static_storage_def)

lemma dictionary_startup:
  "dictionary (startup cb bs) = replicate cb \<lparr>valid = False, dirty = False, ref_count = 0, tag = 0\<rparr>"
  by (simp add: startup_def initialize_system_def static_storage_def)

lemma current_ref_count_startup: "current_ref_count (startup cb bs) = 1"
  by (simp add: startup_def initialize_system_def static_storage_def)

lemma well_formed_startup: "0 < cb \<Longrightarrow> well_formed bs (startup cb bs)"
  by (simp add: well_formed_def data_startup data_cache_startup dictionary_startup)



section \<open>Reference counts\<close>

lemma stamped_imp_except: "ref_counts_stamped s \<Longrightarrow> stamped_except b s"
  by (simp add: ref_counts_stamped_def stamped_except_def)

lemma stamped_except_update:
  assumes "stamped_except b s" "dictionary s' = (dictionary s)[b := e]"
    "current_ref_count s' = current_ref_count s"
  shows "stamped_except b s'"
  using assms by (auto simp: stamped_except_def)

lemma stamped_invalidate:
  assumes "ref_counts_stamped s" "dictionary s' = (dictionary s)[b := e]" "\<not> valid e"
    "current_ref_count s' = current_ref_count s"
  shows "ref_counts_stamped s'"
  unfolding ref_counts_stamped_def
proof (intro conjI ballI impI)
  fix i assume i: "i \<in> {0..<length (dictionary s')}" "valid (dictionary s' ! i)"
  with assms(2,3) have "i \<noteq> b" by (auto simp: nth_list_update)
  with i assms show "ref_count (dictionary s' ! i) < current_ref_count s'"
    by (simp add: ref_counts_stamped_def)
next
  fix i j assume i: "i \<in> {0..<length (dictionary s')}" "j \<in> {0..<length (dictionary s')}"
    "valid (dictionary s' ! i) \<and> valid (dictionary s' ! j) \<and> i \<noteq> j"
  with assms(2,3) have "i \<noteq> b" "j \<noteq> b" by (auto simp: nth_list_update)
  with i assms show "ref_count (dictionary s' ! i) \<noteq> ref_count (dictionary s' ! j)"
    by (simp add: ref_counts_stamped_def)
qed

lemma write_block_stamped:
  assumes "write_block bs b s = Inr s'" "ref_counts_stamped s"
  shows "ref_counts_stamped s'"
proof (cases "valid (dictionary s ! b)")
  case True
  let ?e = "(dictionary s ! b)\<lparr>valid := False, dirty := False, ref_count := 0\<rparr>"
  have "\<not> valid ?e" by simp
  moreover have "dictionary s' = (dictionary s)[b := ?e]"
    using write_block_effect(3) [OF assms(1)] True by simp
  ultimately show ?thesis
    using assms(2) write_block_effect(2) [OF assms(1)]
    by (intro stamped_invalidate [of s s' b ?e])
next
  case False
  with write_block_effect(2,3) [OF assms(1)] assms(2) show ?thesis
    by (simp add: ref_counts_stamped_def)
qed

lemma write_block_length:
  "write_block bs b s = Inr s' \<Longrightarrow> length (dictionary s') = length (dictionary s)"
  using write_block_effect(3) [of bs b s s'] by simp

lemma stamp_entry:
  assumes "stamped_except b s1" "b < length (dictionary s1)"
    and "unat (current_ref_count s1) + 1 < 2 ^ 64"
    and "dictionary s2 = (dictionary s1)[b := e]" "ref_count e = current_ref_count s1"
    and "current_ref_count s2 = current_ref_count s1 + 1"
  shows "ref_counts_stamped s2"
proof -
  have "unat (current_ref_count s1 + 1) = unat (current_ref_count s1) + unat (1 :: ulong)"
    using assms(3) unat_add_lem [of "current_ref_count s1" 1] by simp
  then have lt: "current_ref_count s1 < current_ref_count s1 + 1"
    by (simp add: word_less_nat_alt)
  have old: "ref_count (dictionary s1 ! i) < current_ref_count s1"
    if "i < length (dictionary s1)" "i \<noteq> b" "valid (dictionary s1 ! i)" for i
    using assms(1) that by (simp add: stamped_except_def)
  show ?thesis
    unfolding ref_counts_stamped_def
  proof (intro conjI ballI impI)
    fix i assume i: "i \<in> {0..<length (dictionary s2)}" "valid (dictionary s2 ! i)"
    show "ref_count (dictionary s2 ! i) < current_ref_count s2"
    proof (cases "i = b")
      case True
      with assms(2,4,5,6) lt show ?thesis by simp
    next
      case False
      with i assms(4) old [of i] have "ref_count (dictionary s2 ! i) < current_ref_count s1" by simp
      with lt assms(6) show ?thesis by simp
    qed
  next
    fix i j assume i: "i \<in> {0..<length (dictionary s2)}" "j \<in> {0..<length (dictionary s2)}"
      "valid (dictionary s2 ! i) \<and> valid (dictionary s2 ! j) \<and> i \<noteq> j"
    show "ref_count (dictionary s2 ! i) \<noteq> ref_count (dictionary s2 ! j)"
    proof (cases "i = b \<or> j = b")
      case False
      with i assms(1,4) show ?thesis by (simp add: stamped_except_def)
    next
      case True
      then show ?thesis
      proof
        assume b: "i = b"
        with i have "j \<noteq> b" by simp
        with i assms(4) old [of j] have "ref_count (dictionary s2 ! j) < current_ref_count s1" by simp
        moreover from b assms(2,4,5) have "ref_count (dictionary s2 ! i) = current_ref_count s1" by simp
        ultimately show ?thesis by simp
      next
        assume b: "j = b"
        with i have "i \<noteq> b" by simp
        with i assms(4) old [of i] have "ref_count (dictionary s2 ! i) < current_ref_count s1" by simp
        moreover from b assms(2,4,5) have "ref_count (dictionary s2 ! j) = current_ref_count s1" by simp
        ultimately show ?thesis by simp
      qed
    qed
  qed
qed

section \<open>Effects of a read and a write\<close>

lemma locate_block_cases:
  assumes "locate_block bs s = Inr (b, s1)"
  obtains (hit) "find_block (addr2tag bs (MAR s)) s = Some b"
      "s1 = s\<lparr>cache_hits := cache_hits s + 1\<rparr>"
  | (miss) "find_block (addr2tag bs (MAR s)) s = None"
      "fetch_block bs (of_nat (addr2tag bs (MAR s))) s = Inr (b, s1)"
proof (cases "find_block (addr2tag bs (MAR s)) s")
  case None
  with assms show thesis by (intro miss) (simp_all add: locate_block_def)
next
  case (Some k)
  with assms have "k = b" "s1 = s\<lparr>cache_hits := cache_hits s + 1\<rparr>"
    by (auto simp: locate_block_def)
  with Some show thesis by (intro hit) simp_all
qed

lemma cache_read_effect:
  assumes "cache_read bs s = Inr (ph, s')" "unat (MAR s) < DATA_SIZE bs * bs * 2"
  obtains b s1 where "locate_block bs s = Inr (b, s1)"
    "dictionary s' = (dictionary s1)[b :=
        (dictionary s1 ! b)\<lparr>ref_count := current_ref_count s1\<rparr>]"
    "current_ref_count s' = current_ref_count s1 + 1"
    "data s' = data s1" "data_cache s' = data_cache s1" "ph = WRITE_BACK"
proof (cases "locate_block bs s")
  case (Inl f)
  with assms show thesis by (simp add: cache_read_def)
next
  case (Inr p)
  obtain b s1 where p: "p = (b, s1)" by (cases p)
  from assms Inr p show thesis
    by (intro that [of b s1]) (auto simp: cache_read_def Let_def)
qed

lemma cache_write_effect:
  assumes "cache_write bs s = Inr (ph, s')" "unat (MAR s) < DATA_SIZE bs * bs * 2"
  obtains b s1 where "locate_block bs s = Inr (b, s1)"
    "dictionary s' = (dictionary s1)[b :=
        (dictionary s1 ! b)\<lparr>ref_count := current_ref_count s1, dirty := True\<rparr>]"
    "current_ref_count s' = current_ref_count s1 + 1"
    "data s' = data s1"
    "data_cache s' = (data_cache s1)[b := (data_cache s1 ! b)[addr2offset bs (MAR s) :=
        (ucast (drop_bit 8 (MDR s)), ucast (MDR s AND 0x00FF))]]"
    "ph = FETCH_INSTR"
proof (cases "locate_block bs s")
  case (Inl f)
  with assms show thesis by (simp add: cache_write_def)
next
  case (Inr p)
  obtain b s1 where p: "p = (b, s1)" by (cases p)
  from assms Inr p show thesis
    by (intro that [of b s1]) (auto simp: cache_write_def Let_def)
qed

lemma access_out_of_range:
  assumes "\<not> unat (MAR s) < DATA_SIZE bs * bs * 2"
  shows "cache_read bs s = Inr (ILLEGAL_ADDRESS, s)" "cache_write bs s = Inr (ILLEGAL_ADDRESS, s)"
  using assms by (simp_all add: cache_read_def cache_write_def)

lemma locate_block_stamped:
  assumes "locate_block bs s = Inr (b, s1)" "ref_counts_stamped s" "dictionary s \<noteq> []"
  shows "stamped_except b s1 \<and> b < length (dictionary s1)
      \<and> current_ref_count s1 = current_ref_count s
      \<and> length (dictionary s1) = length (dictionary s)"
  using assms(1)
proof (cases rule: locate_block_cases)
  case hit
  from hit(1) have "b < length (dictionary s)"
    using find_scan_Some [of "dictionary s" 0 _ b] by (simp add: find_block_def)
  with hit(2) assms(2) show ?thesis
    by (simp add: stamped_except_def ref_counts_stamped_def)
next
  case miss
  from miss(2) show ?thesis
  proof (cases rule: fetch_block_cases)
    case free
    from first_free_Some [OF free(1)] have b: "b < length (dictionary s)" by simp
    have "stamped_except b s1"
      unfolding free(3) using stamped_imp_except [OF assms(2), of b]
      by (rule stamped_except_update) (simp_all add: fill_block_fields)
    with b show ?thesis by (simp add: free(3) fill_block_fields)
  next
    case (evict s0)
    from evict(2) have b': "b = snd (lru_scan (dictionary s) 0 (0xFFFFFFFF, 0))"
      and w: "write_block bs b s = Inr s0"
      using removeLRU_is_write_block [of bs s b s0] by blast+
    from b' assms(3) have b: "b < length (dictionary s)" by (simp add: lru_scan_index)
    from w assms(2) have "ref_counts_stamped s0" by (rule write_block_stamped)
    then have "stamped_except b s0" by (rule stamped_imp_except)
    then have "stamped_except b s1"
      unfolding evict(4) by (rule stamped_except_update) (simp_all add: fill_block_fields)
    with b write_block_length [OF w] write_block_effect(2) [OF w] show ?thesis
      by (simp add: evict(4) fill_block_fields)
  qed
qed

lemma cache_read_stamped:
  assumes "cache_read bs s = Inr (ph, s')" "ref_counts_stamped s" "dictionary s \<noteq> []"
    and "unat (current_ref_count s) + 1 < 2 ^ 64"
  shows "ref_counts_stamped s' \<and> unat (current_ref_count s') \<le> unat (current_ref_count s) + 1
      \<and> length (dictionary s') = length (dictionary s)"
proof (cases "unat (MAR s) < DATA_SIZE bs * bs * 2")
  case False
  with assms(1) access_out_of_range(1) [OF False] have "s' = s" by simp
  with assms(2) show ?thesis by simp
next
  case True
  from assms(1) True obtain b s1 where l: "locate_block bs s = Inr (b, s1)"
    and d: "dictionary s' = (dictionary s1)[b :=
        (dictionary s1 ! b)\<lparr>ref_count := current_ref_count s1\<rparr>]"
    and c: "current_ref_count s' = current_ref_count s1 + 1"
    by (rule cache_read_effect)
  note ls = locate_block_stamped [OF l assms(2,3)]
  from ls assms(4) have "unat (current_ref_count s1) + 1 < 2 ^ 64" by simp
  with ls have "ref_counts_stamped s'"
    using d c
    by (intro stamp_entry [of b s1 s' "(dictionary s1 ! b)\<lparr>ref_count := current_ref_count s1\<rparr>"])
      simp_all
  moreover have "unat (current_ref_count s') \<le> unat (current_ref_count s) + 1"
    using c ls unat_add_lem [of "current_ref_count s" 1] assms(4) by simp
  ultimately show ?thesis using d ls by simp
qed

lemma cache_write_stamped:
  assumes "cache_write bs s = Inr (ph, s')" "ref_counts_stamped s" "dictionary s \<noteq> []"
    and "unat (current_ref_count s) + 1 < 2 ^ 64"
  shows "ref_counts_stamped s' \<and> unat (current_ref_count s') \<le> unat (current_ref_count s) + 1
      \<and> length (dictionary s') = length (dictionary s)"
proof (cases "unat (MAR s) < DATA_SIZE bs * bs * 2")
  case False
  with assms(1) access_out_of_range(2) [OF False] have "s' = s" by simp
  with assms(2) show ?thesis by simp
next
  case True
  from assms(1) True obtain b s1 where l: "locate_block bs s = Inr (b, s1)"
    and d: "dictionary s' = (dictionary s1)[b :=
        (dictionary s1 ! b)\<lparr>ref_count := current_ref_count s1, dirty := True\<rparr>]"
    and c: "current_ref_count s' = current_ref_count s1 + 1"
    by (rule cache_write_effect)
  note ls = locate_block_stamped [OF l assms(2,3)]
  from ls assms(4) have "unat (current_ref_count s1) + 1 < 2 ^ 64" by simp
  with ls have "ref_counts_stamped s'"
    using d c
    by (intro stamp_entry [of b s1 s'
          "(dictionary s1 ! b)\<lparr>ref_count := current_ref_count s1, dirty := True\<rparr>"])
      simp_all
  moreover have "unat (current_ref_count s') \<le> unat (current_ref_count s) + 1"
    using c ls unat_add_lem [of "current_ref_count s" 1] assms(4) by simp
  ultimately show ?thesis using d ls by simp
qed

lemma flush_from_stamped:
  assumes "flush_from bs i n s = Inr s'" "ref_counts_stamped s"
  shows "ref_counts_stamped s' \<and> current_ref_count s' = current_ref_count s
      \<and> length (dictionary s') = length (dictionary s)"
  using assms
proof (induction n arbitrary: i s)
  case 0
  then show ?case by simp
next
  case (Suc n)
  from Suc.prems(1) obtain s1 where w: "write_block bs i s = Inr s1"
    and f: "flush_from bs (Suc i) n s1 = Inr s'"
    by (auto split: sum.splits)
  from w Suc.prems(2) have "ref_counts_stamped s1" by (rule write_block_stamped)
  from Suc.IH [OF f this] write_block_effect(2) [OF w] write_block_length [OF w]
  show ?case by simp
qed

lemma stamped_latches:
  "ref_counts_stamped (s\<lparr>MAR := a\<rparr>) = ref_counts_stamped s"
  "ref_counts_stamped (s\<lparr>MAR := a, MDR := v\<rparr>) = ref_counts_stamped s"
  by (simp_all add: ref_counts_stamped_def)

lemma apply_op_stamped:
  assumes "apply_op bs x s = Inr s'" "ref_counts_stamped s" "dictionary s \<noteq> []"
    and "unat (current_ref_count s) + 1 < 2 ^ 64"
  shows "ref_counts_stamped s' \<and> unat (current_ref_count s') \<le> unat (current_ref_count s) + 1
      \<and> length (dictionary s') = length (dictionary s)"
proof (cases x)
  case (Read a)
  with assms(1) obtain ph where "cache_read bs (s\<lparr>MAR := a\<rparr>) = Inr (ph, s')"
    by (auto split: sum.splits)
  from cache_read_stamped [OF this] assms(2-4) show ?thesis by (simp add: stamped_latches)
next
  case (Write a v)
  with assms(1) obtain ph where "cache_write bs (s\<lparr>MAR := a, MDR := v\<rparr>) = Inr (ph, s')"
    by (auto split: sum.splits)
  from cache_write_stamped [OF this] assms(2-4) show ?thesis by (simp add: stamped_latches)
next
  case Evict
  with assms(1) obtain b where "removeLRU bs s = Inr (b, s')"
    by (auto split: sum.splits)
  then have w: "write_block bs b s = Inr s'"
    using removeLRU_is_write_block [of bs s b s'] by blast
  from write_block_stamped [OF w assms(2)] write_block_effect(2) [OF w] write_block_length [OF w]
  show ?thesis by simp
next
  case Flush
  with assms(1) have "flush_from bs 0 (length (dictionary s)) s = Inr s'"
    by (simp add: flush_cache_def)
  from flush_from_stamped [OF this assms(2)] show ?thesis by simp
qed

lemma run_ops_stamped:
  assumes "run_ops bs xs s = Inr s'" "ref_counts_stamped s" "dictionary s \<noteq> []"
    and "unat (current_ref_count s) + length xs < 2 ^ 64"
  shows "ref_counts_stamped s'
      \<and> unat (current_ref_count s') \<le> unat (current_ref_count s) + length xs
      \<and> length (dictionary s') = length (dictionary s)"
  using assms
proof (induction xs arbitrary: s)
  case Nil
  then show ?case by simp
next
  case (Cons x xs)
  from Cons.prems(1) obtain s1 where a: "apply_op bs x s = Inr s1"
    and r: "run_ops bs xs s1 = Inr s'"
    by (auto split: sum.splits)
  from Cons.prems(4) have "unat (current_ref_count s) + 1 < 2 ^ 64" by simp
  note s1 = apply_op_stamped [OF a Cons.prems(2,3) this]
  from s1 Cons.prems(3) have ne: "dictionary s1 \<noteq> []" by auto
  from s1 Cons.prems(4) have "unat (current_ref_count s1) + length xs < 2 ^ 64" by simp
  from Cons.IH [OF r _ ne this] s1 show ?case by simp
qed

lemma stamped_startup: "ref_counts_stamped (startup cb bs)"
  by (simp add: ref_counts_stamped_def dictionary_startup)

section \<open>Structure of the cache and agreement with memory\<close>

lemma tags_in_range_nth:
  "tags_in_range bs s \<Longrightarrow> i < length (dictionary s) \<Longrightarrow> valid (dictionary s ! i) \<Longrightarrow>
     unat (tag (dictionary s ! i)) < DATA_SIZE bs"
  by (simp add: tags_in_range_def)

lemma unique_tags_nth:
  "unique_tags s \<Longrightarrow> i < length (dictionary s) \<Longrightarrow> j < length (dictionary s) \<Longrightarrow>
     valid (dictionary s ! i) \<Longrightarrow> valid (dictionary s ! j) \<Longrightarrow> i \<noteq> j \<Longrightarrow>
     unat (tag (dictionary s ! i)) \<noteq> unat (tag (dictionary s ! j))"
  unfolding unique_tags_def by (metis atLeastLessThan_iff le0 word_unat_eq_iff)

lemma write_block_entry:
  assumes "write_block bs b s = Inr s'" "b < length (dictionary s)" "i < length (dictionary s)"
  shows "valid (dictionary s' ! i) \<longleftrightarrow> i \<noteq> b \<and> valid (dictionary s ! i)"
    and "i \<noteq> b \<Longrightarrow> dictionary s' ! i = dictionary s ! i"
proof -
  note e = write_block_effect(3) [OF assms(1)]
  show "valid (dictionary s' ! i) \<longleftrightarrow> i \<noteq> b \<and> valid (dictionary s ! i)"
  proof (cases "valid (dictionary s ! b)")
    case True
    with e assms(2,3) show ?thesis by (cases "i = b") simp_all
  next
    case False
    with e show ?thesis by (cases "i = b") simp_all
  qed
  show "dictionary s' ! i = dictionary s ! i" if "i \<noteq> b"
    using e that by (cases "valid (dictionary s ! b)") simp_all
qed

lemma write_block_total:
  assumes "tags_in_range bs s" "b < length (dictionary s)"
  shows "\<exists>s'. write_block bs b s = Inr s'"
  using tags_in_range_nth [OF assms] by (simp add: write_block_def Let_def)

lemma write_block_structural:
  assumes "write_block bs b s = Inr s'" "structural bs s" "b < length (dictionary s)"
  shows "structural bs s'"
proof -
  from assms(2) have wf: "well_formed bs s" and tr: "tags_in_range bs s" and ut: "unique_tags s"
    by (simp_all add: structural_def)
  note d = write_block_entry [OF assms(1,3)]
  have l: "length (dictionary s') = length (dictionary s)" using assms(1) by (rule write_block_length)
  have "tags_in_range bs s'"
    unfolding tags_in_range_def all_set_conv_all_nth l
  proof (intro allI impI)
    fix i assume i: "i < length (dictionary s)" "valid (dictionary s' ! i)"
    with d [of i] have "i \<noteq> b" "valid (dictionary s ! i)" "dictionary s' ! i = dictionary s ! i"
      by simp_all
    with tags_in_range_nth [OF tr i(1)] show "unat (tag (dictionary s' ! i)) < DATA_SIZE bs"
      by simp
  qed
  moreover have "unique_tags s'"
    unfolding unique_tags_def l
  proof (intro ballI impI)
    fix i j assume i: "i \<in> {0..<length (dictionary s)}" and j: "j \<in> {0..<length (dictionary s)}"
      and v: "valid (dictionary s' ! i) \<and> valid (dictionary s' ! j)
              \<and> tag (dictionary s' ! i) = tag (dictionary s' ! j)"
    from i j v d [of i] d [of j]
    have "valid (dictionary s ! i) \<and> valid (dictionary s ! j)
              \<and> tag (dictionary s ! i) = tag (dictionary s ! j)" by simp
    with ut i j show "i = j" unfolding unique_tags_def by blast
  qed
  ultimately show ?thesis
    using write_block_well_formed [OF assms(1) wf assms(3)] by (simp add: structural_def)
qed

lemma write_block_sync:
  assumes "write_block bs b s = Inr s'" "structural bs s" "b < length (dictionary s)"
  shows "no_new_divergence s s'"
  unfolding no_new_divergence_def
proof (intro ballI impI)
  fix i assume i: "i \<in> {0..<length (dictionary s')}" and dv: "diverged s' i"
  note e = write_block_effect [OF assms(1)]
  from assms(2) have wf: "well_formed bs s" and ut: "unique_tags s"
    by (simp_all add: structural_def)
  from i write_block_length [OF assms(1)] have il: "i < length (dictionary s)" by simp
  from dv have v': "valid (dictionary s' ! i)" by (simp add: diverged_def)
  with write_block_entry [OF assms(1,3) il]
  have ib: "i \<noteq> b" and same: "dictionary s' ! i = dictionary s ! i" by simp_all
  from v' same have v: "valid (dictionary s ! i)" by simp
  have "data s' ! unat (tag (dictionary s ! i)) = data s ! unat (tag (dictionary s ! i))"
  proof (cases "valid (dictionary s ! b) \<and> dirty (dictionary s ! b)")
    case True
    with unique_tags_nth [OF ut il assms(3) v _ ib]
    have "unat (tag (dictionary s ! i)) \<noteq> unat (tag (dictionary s ! b))" by simp
    with write_block_data [OF assms(1) wf assms(3)] True show ?thesis by simp
  next
    case False
    with write_block_data [OF assms(1) wf assms(3)] show ?thesis by auto
  qed
  with dv same e(1) show "diverged s i \<and> dirty (dictionary s' ! i) = dirty (dictionary s ! i)"
    by (simp add: diverged_def)
qed

lemma write_block_absent:
  assumes "write_block bs b s = Inr s'" "absent t s"
  shows "absent t s'"
proof -
  have "set (dictionary s') \<subseteq> insert ((dictionary s ! b)\<lparr>valid := False, dirty := False, ref_count := 0\<rparr>) (set (dictionary s))"
    using write_block_effect(3) [OF assms(1)] set_update_subset_insert [of "dictionary s" b]
    by (auto split: if_splits)
  with assms(2) show ?thesis by (auto simp: absent_def)
qed

lemma no_new_divergence_refl: "no_new_divergence s s"
  by (simp add: no_new_divergence_def)

lemma no_new_divergence_trans:
  assumes "no_new_divergence s s1" "no_new_divergence s1 s2"
    "length (dictionary s2) = length (dictionary s1)"
  shows "no_new_divergence s s2"
  using assms unfolding no_new_divergence_def by fastforce

lemma absent_nth:
  "absent t s \<Longrightarrow> i < length (dictionary s) \<Longrightarrow> valid (dictionary s ! i) \<Longrightarrow>
     unat (tag (dictionary s ! i)) \<noteq> t"
  by (auto simp: absent_def)

lemma fill_block_structural:
  assumes "structural bs s1" "b < length (dictionary s1)" "unat t < DATA_SIZE bs"
    and "absent (unat t) s1"
  shows "structural bs (fill_block bs t b s1)"
proof -
  let ?s = "fill_block bs t b s1"
  from assms(1) have wf: "well_formed bs s1" and tr: "tags_in_range bs s1" and ut: "unique_tags s1"
    by (simp_all add: structural_def)
  note f = fill_block_entry [OF wf assms(2,3)]
  have l: "length (dictionary ?s) = length (dictionary s1)" by (simp add: fill_block_fields)
  have "length (data s1 ! unat t) = bs" using wf assms(3) by (simp add: well_formed_def)
  then have "\<forall>blk \<in> set (data_cache ?s). length blk = bs"
    unfolding fill_block_fields using f(2) wf assms(2)
    by (intro set_update_lengths) (simp_all add: well_formed_def fill_block_fields)
  then have "well_formed bs ?s"
    using wf by (simp add: well_formed_def fill_block_fields)
  moreover have "tags_in_range bs ?s"
    unfolding tags_in_range_def all_set_conv_all_nth l
  proof (intro allI impI)
    fix i assume i: "i < length (dictionary s1)" "valid (dictionary ?s ! i)"
    show "unat (tag (dictionary ?s ! i)) < DATA_SIZE bs"
    proof (cases "i = b")
      case True
      with f(1) assms(3) show ?thesis by simp
    next
      case False
      with f(3) [of i] i tags_in_range_nth [OF tr i(1)] show ?thesis by simp
    qed
  qed
  moreover have "unique_tags ?s"
    unfolding unique_tags_def l
  proof (intro ballI impI)
    fix i j assume i: "i \<in> {0..<length (dictionary s1)}" and j: "j \<in> {0..<length (dictionary s1)}"
      and v: "valid (dictionary ?s ! i) \<and> valid (dictionary ?s ! j)
              \<and> tag (dictionary ?s ! i) = tag (dictionary ?s ! j)"
    show "i = j"
    proof (rule ccontr)
      assume n: "i \<noteq> j"
      consider "i = b" "j \<noteq> b" | "j = b" "i \<noteq> b" | "i \<noteq> b" "j \<noteq> b" using n by blast
      then show False
      proof cases
        case 1
        with v f(1) f(3) [of j] have "valid (dictionary s1 ! j)" "tag (dictionary s1 ! j) = t"
          by simp_all
        with absent_nth [OF assms(4), of j] j show False by simp
      next
        case 2
        with v f(1) f(3) [of i] have "valid (dictionary s1 ! i)" "tag (dictionary s1 ! i) = t"
          by simp_all
        with absent_nth [OF assms(4), of i] i show False by simp
      next
        case 3
        with v f(3) [of i] f(3) [of j]
        have "valid (dictionary s1 ! i) \<and> valid (dictionary s1 ! j)
              \<and> tag (dictionary s1 ! i) = tag (dictionary s1 ! j)" by simp
        with ut i j n show False unfolding unique_tags_def by blast
      qed
    qed
  qed
  ultimately show ?thesis by (simp add: structural_def)
qed

lemma fill_block_sync:
  assumes "well_formed bs s1" "b < length (dictionary s1)" "unat t < DATA_SIZE bs"
  shows "no_new_divergence s1 (fill_block bs t b s1)"
    and "\<not> diverged (fill_block bs t b s1) b"
proof -
  let ?s = "fill_block bs t b s1"
  note f = fill_block_entry [OF assms]
  show nd: "\<not> diverged ?s b"
    using f(1,2) by (simp add: diverged_def fill_block_fields)
  show "no_new_divergence s1 ?s"
    unfolding no_new_divergence_def
  proof (intro ballI impI)
    fix i assume i: "i \<in> {0..<length (dictionary ?s)}" and dv: "diverged ?s i"
    with nd have "i \<noteq> b" by auto
    with dv f(3,4) [of i]
    show "diverged s1 i \<and> dirty (dictionary ?s ! i) = dirty (dictionary s1 ! i)"
      by (simp add: diverged_def fill_block_fields)
  qed
qed

lemma clean_match_from_sync:
  assumes "clean_entries_match_memory s" "no_new_divergence s s'"
    "length (dictionary s') = length (dictionary s)"
  shows "clean_entries_match_memory s'"
  unfolding clean_entries_match_memory_def
proof (intro ballI impI)
  fix i assume i: "i \<in> {0..<length (dictionary s')}"
    and c: "valid (dictionary s' ! i) \<and> \<not> dirty (dictionary s' ! i)"
  show "data_cache s' ! i = data s' ! unat (tag (dictionary s' ! i))"
  proof (rule ccontr)
    assume "data_cache s' ! i \<noteq> data s' ! unat (tag (dictionary s' ! i))"
    with c have "diverged s' i" by (simp add: diverged_def)
    with assms(2) i have "diverged s i" "dirty (dictionary s' ! i) = dirty (dictionary s ! i)"
      by (simp_all add: no_new_divergence_def)
    with c have "valid (dictionary s ! i)" "\<not> dirty (dictionary s ! i)"
      "data_cache s ! i \<noteq> data s ! unat (tag (dictionary s ! i))"
      by (simp_all add: diverged_def)
    moreover from i assms(3) have "i \<in> {0..<length (dictionary s)}" by simp
    ultimately show False
      using assms(1) unfolding clean_entries_match_memory_def by blast
  qed
qed

lemma fill_block_result:
  assumes "structural bs s0" "b < length (dictionary s0)" "unat t < DATA_SIZE bs"
    and "absent (unat t) s0" "s' = fill_block bs t b s0"
  shows "structural bs s' \<and> no_new_divergence s0 s' \<and> b < length (dictionary s')
      \<and> length (dictionary s') = length (dictionary s0)
      \<and> valid (dictionary s' ! b) \<and> \<not> diverged s' b"
proof -
  from assms(1) have wf: "well_formed bs s0" by (simp add: structural_def)
  have "structural bs s'"
    unfolding assms(5) using assms(1-4) by (rule fill_block_structural)
  moreover have "no_new_divergence s0 s'" "\<not> diverged s' b"
    unfolding assms(5) using wf assms(2,3) by (rule fill_block_sync)+
  moreover have "length (dictionary s') = length (dictionary s0)"
    unfolding assms(5) by (simp add: fill_block_fields)
  moreover have "valid (dictionary s' ! b)"
    unfolding assms(5) fill_block_entry(1) [OF wf assms(2,3)] by simp
  ultimately show ?thesis using assms(2) by simp
qed

lemma fetch_block_structural:
  assumes "fetch_block bs t s = Inr (b, s')" "structural bs s" "absent (unat t) s"
  shows "structural bs s' \<and> no_new_divergence s s' \<and> b < length (dictionary s')
      \<and> length (dictionary s') = length (dictionary s)
      \<and> valid (dictionary s' ! b) \<and> \<not> diverged s' b"
  using assms(1)
proof (cases rule: fetch_block_cases)
  case free
  from first_free_Some [OF free(1)] have b: "b < length (dictionary s)" by simp
  from assms(2) b free(2) assms(3) free(3) show ?thesis by (rule fill_block_result)
next
  case (evict s0)
  from evict(2) have b': "b = snd (lru_scan (dictionary s) 0 (0xFFFFFFFF, 0))"
    and w: "write_block bs b s = Inr s0"
    using removeLRU_is_write_block [of bs s b s0] by blast+
  from assms(2) have "dictionary s \<noteq> []" by (simp add: structural_def well_formed_def)
  with b' have b: "b < length (dictionary s)" by (simp add: lru_scan_index)
  note l = write_block_length [OF w]
  from b l have b0: "b < length (dictionary s0)" by simp
  have st0: "structural bs s0" using w assms(2) b by (rule write_block_structural)
  have ab0: "absent (unat t) s0" using w assms(3) by (rule write_block_absent)
  have n0: "no_new_divergence s s0" using w assms(2) b by (rule write_block_sync)
  note r = fill_block_result [OF st0 b0 evict(3) ab0 evict(4)]
  from r have "length (dictionary s') = length (dictionary s0)" by simp
  with n0 r have "no_new_divergence s s'" by (intro no_new_divergence_trans [of s s0 s']) simp_all
  with r l show ?thesis by simp
qed

lemma fetch_block_total:
  assumes "structural bs s" "unat t < DATA_SIZE bs"
  shows "\<exists>b s'. fetch_block bs t s = Inr (b, s')"
proof (cases "first_free (dictionary s) 0")
  case (Some b)
  with assms(2) show ?thesis by (simp add: fetch_block_free)
next
  case None
  from assms(1) have ne: "dictionary s \<noteq> []" and tr: "tags_in_range bs s"
    by (simp_all add: structural_def well_formed_def)
  let ?b = "snd (lru_scan (dictionary s) 0 (0xFFFFFFFF, 0))"
  from ne have "?b < length (dictionary s)" by (simp add: lru_scan_index)
  from write_block_total [OF tr this] obtain s0 where "write_block bs ?b s = Inr s0" ..
  then have "removeLRU bs s = Inr (?b, s0)" by (simp add: removeLRU_is_write_block)
  from fetch_block_evict [OF None this, of t] assms(2) show ?thesis by simp
qed

lemma structural_cache_hits:
  "structural bs (s\<lparr>cache_hits := h\<rparr>) = structural bs s"
  "no_new_divergence s (s\<lparr>cache_hits := h\<rparr>)"
  by (simp_all add: structural_def well_formed_def tags_in_range_def unique_tags_def
      no_new_divergence_def diverged_def)

lemma find_block_absent: "find_block t s = None \<longleftrightarrow> absent t s"
  by (simp add: find_block_def find_scan_None absent_def)

lemma locate_block_structural:
  assumes "locate_block bs s = Inr (b, s1)" "structural bs s"
  shows "structural bs s1 \<and> no_new_divergence s s1 \<and> b < length (dictionary s1)
      \<and> length (dictionary s1) = length (dictionary s) \<and> valid (dictionary s1 ! b)"
  using assms(1)
proof (cases rule: locate_block_cases)
  case hit
  from hit(1) have "b < length (dictionary s)" "valid (dictionary s ! b)"
    using find_scan_Some [of "dictionary s" 0 _ b] by (simp_all add: find_block_def)
  with assms(2) show ?thesis
    unfolding hit(2) by (simp add: structural_cache_hits)
next
  case miss
  from miss(1) have "absent (unat (of_nat (addr2tag bs (MAR s)) :: ushort)) s"
    by (simp add: find_block_absent unat_tag_of_addr)
  from fetch_block_structural [OF miss(2) assms(2) this] show ?thesis by simp
qed

lemma locate_block_total:
  assumes "structural bs s" "addr2tag bs (MAR s) < DATA_SIZE bs"
  shows "\<exists>b s1. locate_block bs s = Inr (b, s1)"
proof (cases "find_block (addr2tag bs (MAR s)) s")
  case (Some b)
  then show ?thesis by (simp add: locate_block_def)
next
  case None
  from assms(2) have "unat (of_nat (addr2tag bs (MAR s)) :: ushort) < DATA_SIZE bs"
    by (simp add: unat_tag_of_addr)
  from fetch_block_total [OF assms(1) this] None show ?thesis by (simp add: locate_block_def)
qed

text \<open>An update of entry \<open>b\<close> that keeps its valid flag and its tag, with \<open>data\<close> as it was.\<close>

lemma touch_entry_structural:
  assumes "structural bs s1" "b < length (dictionary s1)"
    and "dictionary s' = (dictionary s1)[b := e]"
    and "valid e = valid (dictionary s1 ! b)" "tag e = tag (dictionary s1 ! b)"
    and "data s' = data s1"
    and "data_cache s' = data_cache s1
         \<or> data_cache s' = (data_cache s1)[b := (data_cache s1 ! b)[k := w]]"
  shows "structural bs s'"
proof -
  from assms(1) have wf: "well_formed bs s1" and tr: "tags_in_range bs s1" and ut: "unique_tags s1"
    by (simp_all add: structural_def)
  have vt: "valid (dictionary s' ! i) = valid (dictionary s1 ! i)
      \<and> tag (dictionary s' ! i) = tag (dictionary s1 ! i)" if "i < length (dictionary s1)" for i
    using assms(2-5) that by (cases "i = b") simp_all
  have l: "length (dictionary s') = length (dictionary s1)" using assms(3) by simp
  have "\<forall>blk \<in> set (data_cache s'). length blk = bs"
    using assms(7)
  proof
    assume "data_cache s' = data_cache s1"
    with wf show ?thesis by (simp add: well_formed_def)
  next
    assume c: "data_cache s' = (data_cache s1)[b := (data_cache s1 ! b)[k := w]]"
    have "length ((data_cache s1 ! b)[k := w]) = bs"
      using wf assms(2) by (simp add: well_formed_def)
    with wf show ?thesis
      unfolding c by (intro set_update_lengths) (simp_all add: well_formed_def)
  qed
  moreover have "length (data_cache s') = length (data_cache s1)" using assms(7) by auto
  ultimately have "well_formed bs s'"
    using wf l assms(6) by (auto simp: well_formed_def)
  moreover have "tags_in_range bs s'"
    unfolding tags_in_range_def all_set_conv_all_nth l
    using vt tags_in_range_nth [OF tr] by simp
  moreover have "unique_tags s'"
    using ut vt unfolding unique_tags_def l by simp
  ultimately show ?thesis by (simp add: structural_def)
qed

lemma restamp_sync:
  assumes "dictionary s' = (dictionary s1)[b := (dictionary s1 ! b)\<lparr>ref_count := c\<rparr>]"
    and "data s' = data s1" "data_cache s' = data_cache s1"
  shows "no_new_divergence s1 s'"
  unfolding no_new_divergence_def
proof (intro ballI impI)
  fix i assume "i \<in> {0..<length (dictionary s')}" and dv: "diverged s' i"
  then have i: "i < length (dictionary s1)" using assms(1) by simp
  have "valid (dictionary s' ! i) = valid (dictionary s1 ! i)
      \<and> tag (dictionary s' ! i) = tag (dictionary s1 ! i)
      \<and> dirty (dictionary s' ! i) = dirty (dictionary s1 ! i)"
    using assms(1) i by (cases "i = b") simp_all
  with dv assms(2,3)
  show "diverged s1 i \<and> dirty (dictionary s' ! i) = dirty (dictionary s1 ! i)"
    by (simp add: diverged_def)
qed

lemma cache_read_structural:
  assumes "cache_read bs s = Inr (ph, s')" "structural bs s"
  shows "structural bs s' \<and> no_new_divergence s s'
      \<and> length (dictionary s') = length (dictionary s)"
proof (cases "unat (MAR s) < DATA_SIZE bs * bs * 2")
  case False
  with assms(1) access_out_of_range(1) [OF False] have "s' = s" by simp
  with assms(2) show ?thesis by (simp add: no_new_divergence_refl)
next
  case True
  from assms(1) True obtain b s1 where l: "locate_block bs s = Inr (b, s1)"
    and d: "dictionary s' = (dictionary s1)[b :=
        (dictionary s1 ! b)\<lparr>ref_count := current_ref_count s1\<rparr>]"
    and m: "data s' = data s1" "data_cache s' = data_cache s1"
    by (rule cache_read_effect)
  note ls = locate_block_structural [OF l assms(2)]
  from ls have st1: "structural bs s1" and b: "b < length (dictionary s1)" by simp_all
  have "structural bs s'"
    using st1 b d _ _ m(1)
    by (rule touch_entry_structural [where k = 0 and w = "(0, 0)"]) (simp_all add: m(2))
  moreover have "no_new_divergence s s'"
    using ls restamp_sync [OF d m] d
    by (intro no_new_divergence_trans [of s s1 s']) simp_all
  ultimately show ?thesis using ls d by simp
qed

lemma cache_write_structural:
  assumes "cache_write bs s = Inr (ph, s')" "structural bs s" "clean_entries_match_memory s"
  shows "structural bs s' \<and> clean_entries_match_memory s'
      \<and> length (dictionary s') = length (dictionary s)"
proof (cases "unat (MAR s) < DATA_SIZE bs * bs * 2")
  case False
  with assms(1) access_out_of_range(2) [OF False] have "s' = s" by simp
  with assms(2,3) show ?thesis by simp
next
  case True
  from assms(1) True obtain b s1 where l: "locate_block bs s = Inr (b, s1)"
    and d: "dictionary s' = (dictionary s1)[b :=
        (dictionary s1 ! b)\<lparr>ref_count := current_ref_count s1, dirty := True\<rparr>]"
    and m: "data s' = data s1"
      "data_cache s' = (data_cache s1)[b := (data_cache s1 ! b)[addr2offset bs (MAR s) :=
        (ucast (drop_bit 8 (MDR s)), ucast (MDR s AND 0x00FF))]]"
    by (rule cache_write_effect)
  note ls = locate_block_structural [OF l assms(2)]
  from ls have st1: "structural bs s1" and b: "b < length (dictionary s1)"
    and l1: "length (dictionary s1) = length (dictionary s)" by simp_all
  have c1: "clean_entries_match_memory s1"
    using assms(3) ls by (intro clean_match_from_sync [of s s1]) simp_all
  have "structural bs s'"
    using st1 b d _ _ m(1)
    by (rule touch_entry_structural [where k = "addr2offset bs (MAR s)"
          and w = "(ucast (drop_bit 8 (MDR s)), ucast (MDR s AND 0x00FF))"])
      (simp_all add: m(2))
  moreover have "clean_entries_match_memory s'"
    unfolding clean_entries_match_memory_def
  proof (intro ballI impI)
    fix i assume "i \<in> {0..<length (dictionary s')}"
      and c: "valid (dictionary s' ! i) \<and> \<not> dirty (dictionary s' ! i)"
    then have i: "i < length (dictionary s1)" using d by simp
    from c d b have ib: "i \<noteq> b" by auto
    with d m(2) have "dictionary s' ! i = dictionary s1 ! i" "data_cache s' ! i = data_cache s1 ! i"
      by simp_all
    with c c1 i m(1) show "data_cache s' ! i = data s' ! unat (tag (dictionary s' ! i))"
      by (simp add: clean_entries_match_memory_def)
  qed
  ultimately show ?thesis using d l1 by simp
qed

lemma cache_write_sync:
  assumes "cache_write bs s = Inr (ph, s')" "structural bs s"
    "unat (MAR s) < DATA_SIZE bs * bs * 2"
  shows "\<exists>b < length (dictionary s'). valid (dictionary s' ! b) \<and> dirty (dictionary s' ! b)
      \<and> (\<forall>i \<in> {0..<length (dictionary s')}. i \<noteq> b \<and> diverged s' i \<longrightarrow>
            diverged s i \<and> dirty (dictionary s' ! i) = dirty (dictionary s ! i))"
proof -
  from assms(1,3) obtain b s1 where l: "locate_block bs s = Inr (b, s1)"
    and d: "dictionary s' = (dictionary s1)[b :=
        (dictionary s1 ! b)\<lparr>ref_count := current_ref_count s1, dirty := True\<rparr>]"
    and m: "data s' = data s1"
      "data_cache s' = (data_cache s1)[b := (data_cache s1 ! b)[addr2offset bs (MAR s) :=
        (ucast (drop_bit 8 (MDR s)), ucast (MDR s AND 0x00FF))]]"
    by (rule cache_write_effect)
  note ls = locate_block_structural [OF l assms(2)]
  from ls have b: "b < length (dictionary s1)" and v: "valid (dictionary s1 ! b)"
    and n: "no_new_divergence s s1" by simp_all
  have "\<forall>i \<in> {0..<length (dictionary s')}. i \<noteq> b \<and> diverged s' i \<longrightarrow>
            diverged s i \<and> dirty (dictionary s' ! i) = dirty (dictionary s ! i)"
  proof (intro ballI impI)
    fix i assume i: "i \<in> {0..<length (dictionary s')}" and a: "i \<noteq> b \<and> diverged s' i"
    then have ib: "i \<noteq> b" and dv: "diverged s' i" by simp_all
    from ib d m(2) have "dictionary s' ! i = dictionary s1 ! i"
      "data_cache s' ! i = data_cache s1 ! i" by simp_all
    with dv m(1) have "diverged s1 i" "dirty (dictionary s' ! i) = dirty (dictionary s1 ! i)"
      by (simp_all add: diverged_def)
    moreover from i d have "i \<in> {0..<length (dictionary s1)}" by simp
    ultimately show "diverged s i \<and> dirty (dictionary s' ! i) = dirty (dictionary s ! i)"
      using n unfolding no_new_divergence_def by auto
  qed
  moreover from b v d have "b < length (dictionary s')" "valid (dictionary s' ! b)"
    "dirty (dictionary s' ! b)" by simp_all
  ultimately show ?thesis by blast
qed

lemma addressable_tag:
  assumes "0 < bs" "unat a < DATA_SIZE bs * bs"
  shows "addr2tag bs a < DATA_SIZE bs" and "unat a < DATA_SIZE bs * bs * 2"
  using assms by (simp_all add: addr2tag_def less_mult_imp_div_less)

lemma cache_access_total:
  assumes "structural bs s" "0 < bs" "unat (MAR s) < DATA_SIZE bs * bs"
  shows "\<exists>ph s'. cache_read bs s = Inr (ph, s')" and "\<exists>ph s'. cache_write bs s = Inr (ph, s')"
proof -
  note t = addressable_tag [OF assms(2,3)]
  from locate_block_total [OF assms(1) t(1)] obtain b s1
    where "locate_block bs s = Inr (b, s1)" by blast
  with t(2) show "\<exists>ph s'. cache_read bs s = Inr (ph, s')"
    and "\<exists>ph s'. cache_write bs s = Inr (ph, s')"
    by (simp_all add: cache_read_def cache_write_def Let_def)
qed

lemma removeLRU_structural:
  assumes "removeLRU bs s = Inr (b, s')" "structural bs s"
  shows "structural bs s' \<and> no_new_divergence s s'
      \<and> length (dictionary s') = length (dictionary s)"
proof -
  from assms(1) have b': "b = snd (lru_scan (dictionary s) 0 (0xFFFFFFFF, 0))"
    and w: "write_block bs b s = Inr s'"
    using removeLRU_is_write_block [of bs s b s'] by blast+
  from assms(2) have "dictionary s \<noteq> []" by (simp add: structural_def well_formed_def)
  with b' have b: "b < length (dictionary s)" by (simp add: lru_scan_index)
  from write_block_structural [OF w assms(2) b] write_block_sync [OF w assms(2) b]
    write_block_length [OF w]
  show ?thesis by simp
qed

lemma removeLRU_total:
  assumes "structural bs s"
  shows "\<exists>b s'. removeLRU bs s = Inr (b, s')"
proof -
  from assms have ne: "dictionary s \<noteq> []" and tr: "tags_in_range bs s"
    by (simp_all add: structural_def well_formed_def)
  let ?b = "snd (lru_scan (dictionary s) 0 (0xFFFFFFFF, 0))"
  from ne have "?b < length (dictionary s)" by (simp add: lru_scan_index)
  from write_block_total [OF tr this] obtain s0 where "write_block bs ?b s = Inr s0" ..
  then have "removeLRU bs s = Inr (?b, s0)" by (simp add: removeLRU_is_write_block)
  then show ?thesis by blast
qed

lemma flush_from_structural:
  assumes "flush_from bs i n s = Inr s'" "structural bs s" "i + n \<le> length (dictionary s)"
  shows "structural bs s' \<and> no_new_divergence s s'
      \<and> length (dictionary s') = length (dictionary s)"
  using assms
proof (induction n arbitrary: i s)
  case 0
  then show ?case by (simp add: no_new_divergence_refl)
next
  case (Suc n)
  from Suc.prems(1) obtain s1 where w: "write_block bs i s = Inr s1"
    and f: "flush_from bs (Suc i) n s1 = Inr s'"
    by (auto split: sum.splits)
  from Suc.prems(3) have i: "i < length (dictionary s)" by simp
  note l = write_block_length [OF w]
  have st1: "structural bs s1" using w Suc.prems(2) i by (rule write_block_structural)
  have n1: "no_new_divergence s s1" using w Suc.prems(2) i by (rule write_block_sync)
  from Suc.prems(3) l have "Suc i + n \<le> length (dictionary s1)" by simp
  note r = Suc.IH [OF f st1 this]
  from n1 r have "no_new_divergence s s'"
    by (intro no_new_divergence_trans [of s s1 s']) simp_all
  with r l show ?case by simp
qed

lemma flush_from_total:
  assumes "structural bs s" "i + n \<le> length (dictionary s)"
  shows "\<exists>s'. flush_from bs i n s = Inr s'"
  using assms
proof (induction n arbitrary: i s)
  case 0
  then show ?case by simp
next
  case (Suc n)
  from Suc.prems have i: "i < length (dictionary s)" and tr: "tags_in_range bs s"
    by (simp_all add: structural_def)
  from write_block_total [OF tr i] obtain s1 where w: "write_block bs i s = Inr s1" ..
  have "structural bs s1" using w Suc.prems(1) i by (rule write_block_structural)
  moreover from Suc.prems(2) write_block_length [OF w]
  have "Suc i + n \<le> length (dictionary s1)" by simp
  ultimately obtain s' where "flush_from bs (Suc i) n s1 = Inr s'"
    using Suc.IH by blast
  with w show ?case by simp
qed

section \<open>Sequences of cache operations\<close>

lemma latched_address:
  "structural bs (s\<lparr>MAR := a\<rparr>) = structural bs s"
  "structural bs (s\<lparr>MAR := a, MDR := v\<rparr>) = structural bs s"
  "clean_entries_match_memory (s\<lparr>MAR := a\<rparr>) = clean_entries_match_memory s"
  "clean_entries_match_memory (s\<lparr>MAR := a, MDR := v\<rparr>) = clean_entries_match_memory s"
  "no_new_divergence (s\<lparr>MAR := a\<rparr>) s' = no_new_divergence s s'"
  "no_new_divergence (s\<lparr>MAR := a, MDR := v\<rparr>) s' = no_new_divergence s s'"
  by (simp_all add: structural_def well_formed_def tags_in_range_def unique_tags_def
      clean_entries_match_memory_def no_new_divergence_def diverged_def)

lemma apply_op_sync:
  assumes "apply_op bs x s = Inr s'" "structural bs s" "\<forall>a v. x \<noteq> Write a v"
  shows "structural bs s' \<and> no_new_divergence s s'
      \<and> length (dictionary s') = length (dictionary s)"
proof (cases x)
  case (Read a)
  with assms(1) obtain ph where "cache_read bs (s\<lparr>MAR := a\<rparr>) = Inr (ph, s')"
    by (auto split: sum.splits)
  from cache_read_structural [OF this] assms(2) show ?thesis by (simp add: latched_address)
next
  case (Write a v)
  with assms(3) show ?thesis by simp
next
  case Evict
  with assms(1) obtain b where "removeLRU bs s = Inr (b, s')"
    by (auto split: sum.splits)
  from removeLRU_structural [OF this assms(2)] show ?thesis .
next
  case Flush
  with assms(1) have "flush_from bs 0 (length (dictionary s)) s = Inr s'"
    by (simp add: flush_cache_def)
  from flush_from_structural [OF this assms(2)] show ?thesis by simp
qed

lemma apply_op_invariant:
  assumes "apply_op bs x s = Inr s'" "structural bs s" "clean_entries_match_memory s"
  shows "structural bs s' \<and> clean_entries_match_memory s'"
proof (cases "\<forall>a v. x \<noteq> Write a v")
  case True
  note r = apply_op_sync [OF assms(1,2) True]
  with assms(3) have "clean_entries_match_memory s'"
    by (intro clean_match_from_sync [of s s']) simp_all
  with r show ?thesis by simp
next
  case False
  then obtain a v where "x = Write a v" by blast
  with assms(1) obtain ph where "cache_write bs (s\<lparr>MAR := a, MDR := v\<rparr>) = Inr (ph, s')"
    by (auto split: sum.splits)
  from cache_write_structural [OF this] assms(2,3) show ?thesis by (simp add: latched_address)
qed

lemma run_ops_invariant:
  assumes "run_ops bs xs s = Inr s'" "structural bs s" "clean_entries_match_memory s"
  shows "structural bs s' \<and> clean_entries_match_memory s'"
  using assms
proof (induction xs arbitrary: s)
  case Nil
  then show ?case by simp
next
  case (Cons x xs)
  from Cons.prems(1) obtain s1 where a: "apply_op bs x s = Inr s1"
    and r: "run_ops bs xs s1 = Inr s'"
    by (auto split: sum.splits)
  from apply_op_invariant [OF a Cons.prems(2,3)] Cons.IH [OF r] show ?case by simp
qed

lemma apply_op_total:
  assumes "structural bs s" "0 < bs" "op_addressable bs x"
  shows "\<exists>s'. apply_op bs x s = Inr s'"
proof (cases x)
  case (Read a)
  with assms have "structural bs (s\<lparr>MAR := a\<rparr>)" "unat (MAR (s\<lparr>MAR := a\<rparr>)) < DATA_SIZE bs * bs"
    by (simp_all add: latched_address)
  from cache_access_total(1) [OF this(1) assms(2) this(2)] Read show ?thesis by auto
next
  case (Write a v)
  with assms have "structural bs (s\<lparr>MAR := a, MDR := v\<rparr>)"
    "unat (MAR (s\<lparr>MAR := a, MDR := v\<rparr>)) < DATA_SIZE bs * bs"
    by (simp_all add: latched_address)
  from cache_access_total(2) [OF this(1) assms(2) this(2)] Write show ?thesis by auto
next
  case Evict
  with removeLRU_total [OF assms(1)] show ?thesis by auto
next
  case Flush
  with flush_from_total [OF assms(1), of 0 "length (dictionary s)"] show ?thesis
    by (simp add: flush_cache_def)
qed

lemma run_ops_total:
  assumes "structural bs s" "clean_entries_match_memory s" "0 < bs"
    "\<forall>x \<in> set xs. op_addressable bs x"
  shows "\<exists>s'. run_ops bs xs s = Inr s'"
  using assms
proof (induction xs arbitrary: s)
  case Nil
  then show ?case by simp
next
  case (Cons x xs)
  from Cons.prems have "op_addressable bs x" by simp
  from apply_op_total [OF Cons.prems(1,3) this] obtain s1 where a: "apply_op bs x s = Inr s1" ..
  from apply_op_invariant [OF a Cons.prems(1,2)] Cons.prems(3,4) Cons.IH [of s1]
  obtain s' where "run_ops bs xs s1 = Inr s'" by auto
  with a show ?case by simp
qed

lemma structural_startup: "0 < cb \<Longrightarrow> structural bs (startup cb bs)"
  by (simp add: structural_def well_formed_startup tags_in_range_def unique_tags_def
      dictionary_startup)

lemma clean_startup: "clean_entries_match_memory (startup cb bs)"
  by (simp add: clean_entries_match_memory_def dictionary_startup)

lemma fetch_block_fresh:
  assumes "fetch_block bs t s = Inr (b, s')" "structural bs s" "find_block (unat t) s = None"
  shows "valid (dictionary s' ! b) \<and> \<not> dirty (dictionary s' ! b)
       \<and> data_cache s' ! b = data s' ! unat t"
proof -
  from assms(3) have ab: "absent (unat t) s" by (simp add: find_block_absent)
  from assms(2) have wf: "well_formed bs s" by (simp add: structural_def)
  from assms(1) show ?thesis
  proof (cases rule: fetch_block_cases)
    case free
    from first_free_Some [OF free(1)] have b: "b < length (dictionary s)" by simp
    from fill_block_entry(1,2) [OF wf b free(2)] show ?thesis
      unfolding free(3) by (simp add: fill_block_fields)
  next
    case (evict s0)
    from evict(2) have b': "b = snd (lru_scan (dictionary s) 0 (0xFFFFFFFF, 0))"
      and w: "write_block bs b s = Inr s0"
      using removeLRU_is_write_block [of bs s b s0] by blast+
    from wf have "dictionary s \<noteq> []" by (simp add: well_formed_def)
    with b' have b: "b < length (dictionary s)" by (simp add: lru_scan_index)
    with write_block_length [OF w] have b0: "b < length (dictionary s0)" by simp
    have wf0: "well_formed bs s0" using w wf b by (rule write_block_well_formed)
    from fill_block_entry(1,2) [OF wf0 b0 evict(3)] show ?thesis
      unfolding evict(4) by (simp add: fill_block_fields)
  qed
qed

text \<open>
  Claim C6.  Start from the initialised machine with at least one cache block and run
  any sequence of cache operations (reads, writes, evictions, flushes) that
  completes.  In the state reached, the payload of every valid entry that is not dirty
  equals the memory block \<open>data[tag]\<close> of the entry.  Moreover, from that state: a fill
  of a block that is not in the cache leaves its entry valid, not dirty and equal to
  \<open>data[tag]\<close>; a read, an eviction or a flush makes no payload newly differ from its
  memory block; and a write within the range check leaves an entry dirty and makes no
  other payload newly differ from its memory block.
\<close>

theorem clean_entries_equal_memory:
  assumes "0 < cb" "run_ops bs xs (startup cb bs) = Inr s"
  shows "clean_entries_match_memory s
    \<and> (\<forall>t b s'. find_block (unat t) s = None \<and> fetch_block bs t s = Inr (b, s') \<longrightarrow>
          valid (dictionary s' ! b) \<and> \<not> dirty (dictionary s' ! b)
          \<and> data_cache s' ! b = data s' ! unat t)
    \<and> (\<forall>x s'. (\<forall>a v. x \<noteq> Write a v) \<and> apply_op bs x s = Inr s' \<longrightarrow> no_new_divergence s s')
    \<and> (\<forall>a v s'. unat a < DATA_SIZE bs * bs * 2 \<and> apply_op bs (Write a v) s = Inr s' \<longrightarrow>
          (\<exists>b < length (dictionary s'). valid (dictionary s' ! b) \<and> dirty (dictionary s' ! b)
             \<and> (\<forall>i \<in> {0..<length (dictionary s')}. i \<noteq> b \<and> diverged s' i \<longrightarrow> diverged s i)))"
proof -
  from run_ops_invariant [OF assms(2) structural_startup [OF assms(1)] clean_startup]
  have st: "structural bs s" and cl: "clean_entries_match_memory s" by simp_all
  have "valid (dictionary s' ! b) \<and> \<not> dirty (dictionary s' ! b)
          \<and> data_cache s' ! b = data s' ! unat t"
    if "find_block (unat t) s = None \<and> fetch_block bs t s = Inr (b, s')" for t b s'
    using that fetch_block_fresh [of bs t s b s'] st by simp
  moreover have "no_new_divergence s s'"
    if "(\<forall>a v. x \<noteq> Write a v) \<and> apply_op bs x s = Inr s'" for x s'
    using that apply_op_sync [of bs x s s'] st by simp
  moreover have "\<exists>b < length (dictionary s'). valid (dictionary s' ! b) \<and> dirty (dictionary s' ! b)
             \<and> (\<forall>i \<in> {0..<length (dictionary s')}. i \<noteq> b \<and> diverged s' i \<longrightarrow> diverged s i)"
    if w: "unat a < DATA_SIZE bs * bs * 2 \<and> apply_op bs (Write a v) s = Inr s'" for a v s'
  proof -
    from w obtain ph where c: "cache_write bs (s\<lparr>MAR := a, MDR := v\<rparr>) = Inr (ph, s')"
      by (auto split: sum.splits)
    have d: "diverged (s\<lparr>MAR := a, MDR := v\<rparr>) i = diverged s i" for i
      by (simp add: diverged_def)
    from cache_write_sync [OF c] st w show ?thesis
      by (simp add: latched_address d) blast
  qed
  ultimately show ?thesis using cl by blast
qed

lemma cache_hits_startup: "cache_hits (startup cb bs) = 0"
  by (simp add: startup_def initialize_system_def static_storage_def)

lemma two_blocks_startup:
  "dictionary (startup 2 bs) = [\<lparr>valid = False, dirty = False, ref_count = 0, tag = 0\<rparr>,
                               \<lparr>valid = False, dirty = False, ref_count = 0, tag = 0\<rparr>]"
  "data_cache (startup 2 bs) = [replicate bs (MEM_FILLER, MEM_FILLER),
                                replicate bs (MEM_FILLER, MEM_FILLER)]"
  by (simp_all add: dictionary_startup data_cache_startup numeral_2_eq_2)

lemma run_two_writes_and_a_read:
  "\<exists>s. run_ops 2 [Write 0 1, Write 4 2, Read 0] (startup 2 2) = Inr s
     \<and> dictionary s = [\<lparr>valid = True, dirty = True, ref_count = 3, tag = 0\<rparr>,
                        \<lparr>valid = True, dirty = True, ref_count = 2, tag = 2\<rparr>]
     \<and> current_ref_count s = 4 \<and> cache_hits s = 1"
  by (simp add: cache_write_def cache_read_def locate_block_def find_block_def fetch_block_def
     addr2tag_def addr2offset_def DATA_SIZE_def Let_def
     two_blocks_startup data_startup current_ref_count_startup
     cache_hits_startup copy_block_whole)

lemma run_write_read_evict_read:
  "\<exists>s. run_ops 8 [Write 0 0x2A, Read 0, Write 8 7, Read 0] (startup 1 8) = Inr s
     \<and> dictionary s = [\<lparr>valid = True, dirty = False, ref_count = 4, tag = 0\<rparr>]
     \<and> data s ! 0 ! 0 = (0x00, 0x2A) \<and> data s ! 1 ! 0 = (0x00, 0x07)"
  by (simp add: cache_write_def cache_read_def locate_block_def find_block_def fetch_block_def
     removeLRU_def write_block_def Let_def
     addr2tag_def addr2offset_def DATA_SIZE_def
     dictionary_startup data_startup data_cache_startup current_ref_count_startup
     cache_hits_startup copy_block_whole)

theorem clean_entries_equal_memory_witness:
  "\<exists>s. run_ops 8 [Write 0 0x2A, Read 0, Write 8 7, Read 0] (startup 1 8) = Inr s
     \<and> valid (dictionary s ! 0) \<and> \<not> dirty (dictionary s ! 0) \<and> tag (dictionary s ! 0) = 0
     \<and> data s ! 0 ! 0 = (0x00, 0x2A) \<and> data_cache s ! 0 = data s ! 0"
proof -
  from run_write_read_evict_read obtain s
    where r: "run_ops 8 [Write 0 0x2A, Read 0, Write 8 7, Read 0] (startup 1 8) = Inr s"
      and d: "dictionary s = [\<lparr>valid = True, dirty = False, ref_count = 4, tag = 0\<rparr>]"
      and m: "data s ! 0 ! 0 = (0x00, 0x2A)" by blast
  have "0 < (1::nat)" by simp
  from clean_entries_equal_memory [OF this r] have "clean_entries_match_memory s" by simp
  with d have "data_cache s ! 0 = data s ! 0"
    by (simp add: clean_entries_match_memory_def)
  with r d m show ?thesis by auto
qed

lemma access_stamps:
  assumes "structural bs s" "ref_counts_stamped s" "unat (MAR s) < DATA_SIZE bs * bs * 2"
  shows "cache_read bs s = Inr (ph, s') \<Longrightarrow> stamped_by_access s s'"
    and "cache_write bs s = Inr (ph, s') \<Longrightarrow> stamped_by_access s s'"
proof -
  from assms(1) have ne: "dictionary s \<noteq> []" by (simp add: structural_def well_formed_def)
  show "stamped_by_access s s'" if "cache_read bs s = Inr (ph, s')"
  proof -
    from that assms(3) obtain b s1 where l: "locate_block bs s = Inr (b, s1)"
      and d: "dictionary s' = (dictionary s1)[b :=
          (dictionary s1 ! b)\<lparr>ref_count := current_ref_count s1\<rparr>]"
      and c: "current_ref_count s' = current_ref_count s1 + 1"
      by (rule cache_read_effect)
    from locate_block_structural [OF l assms(1)] locate_block_stamped [OF l assms(2) ne] d c
    have "current_ref_count s' = current_ref_count s + 1" "b \<in> {0..<length (dictionary s')}"
      "valid (dictionary s' ! b)" "ref_count (dictionary s' ! b) = current_ref_count s"
      by simp_all
    then show ?thesis unfolding stamped_by_access_def by blast
  qed
  show "stamped_by_access s s'" if "cache_write bs s = Inr (ph, s')"
  proof -
    from that assms(3) obtain b s1 where l: "locate_block bs s = Inr (b, s1)"
      and d: "dictionary s' = (dictionary s1)[b :=
          (dictionary s1 ! b)\<lparr>ref_count := current_ref_count s1, dirty := True\<rparr>]"
      and c: "current_ref_count s' = current_ref_count s1 + 1"
      by (rule cache_write_effect)
    from locate_block_structural [OF l assms(1)] locate_block_stamped [OF l assms(2) ne] d c
    have "current_ref_count s' = current_ref_count s + 1" "b \<in> {0..<length (dictionary s')}"
      "valid (dictionary s' ! b)" "ref_count (dictionary s' ! b) = current_ref_count s"
      by simp_all
    then show ?thesis unfolding stamped_by_access_def by blast
  qed
qed

lemma stamped_by_access_latches:
  "stamped_by_access (s\<lparr>MAR := a\<rparr>) s' = stamped_by_access s s'"
  "stamped_by_access (s\<lparr>MAR := a, MDR := v\<rparr>) s' = stamped_by_access s s'"
  by (simp_all add: stamped_by_access_def)

lemma write_block_clears:
  assumes "write_block bs b s = Inr s'" "b < length (dictionary s)" "valid (dictionary s ! b)"
  shows "\<not> valid (dictionary s' ! b) \<and> ref_count (dictionary s' ! b) = 0"
  using write_block_effect(3) [OF assms(1)] assms(2,3) by simp

text \<open>
  Claim C9.  Start from the initialised machine with at least one cache block and run
  any sequence of fewer than \<open>2^64 - 1\<close> cache operations (reads, writes, evictions,
  flushes) that completes: then the reference counts of the valid entries are below
  \<open>current_ref_count\<close> and pairwise distinct.  From such a state, a read or a write
  that passes the range check, hit or miss, stamps a valid entry with
  \<open>current_ref_count\<close> and increments the counter, and \<open>write_block\<close> on a valid entry
  leaves it invalid with reference count 0.  The bound keeps the 64-bit counter, which
  starts at 1 and grows by one per access, from wrapping.
\<close>

theorem ref_counts_distinct_below_current:
  assumes "0 < cb" "length xs < 2 ^ 64 - 1" "run_ops bs xs (startup cb bs) = Inr s"
  shows "ref_counts_stamped s
    \<and> (\<forall>a s'. unat a < DATA_SIZE bs * bs * 2 \<and> apply_op bs (Read a) s = Inr s' \<longrightarrow>
          stamped_by_access s s')
    \<and> (\<forall>a v s'. unat a < DATA_SIZE bs * bs * 2 \<and> apply_op bs (Write a v) s = Inr s' \<longrightarrow>
          stamped_by_access s s')
    \<and> (\<forall>b s'. b < length (dictionary s) \<and> valid (dictionary s ! b)
                \<and> write_block bs b s = Inr s' \<longrightarrow>
          \<not> valid (dictionary s' ! b) \<and> ref_count (dictionary s' ! b) = 0)"
proof -
  have "dictionary (startup cb bs) \<noteq> []" using assms(1) by (simp add: dictionary_startup)
  moreover have "unat (current_ref_count (startup cb bs)) + length xs < 2 ^ 64"
    using assms(2) by (simp add: current_ref_count_startup)
  ultimately have rs: "ref_counts_stamped s"
    using run_ops_stamped [OF assms(3) stamped_startup] by simp
  from run_ops_invariant [OF assms(3) structural_startup [OF assms(1)] clean_startup]
  have st: "structural bs s" by simp
  have "stamped_by_access s s'"
    if h: "unat a < DATA_SIZE bs * bs * 2 \<and> apply_op bs (Read a) s = Inr s'" for a s'
  proof -
    from h obtain ph where "cache_read bs (s\<lparr>MAR := a\<rparr>) = Inr (ph, s')"
      by (auto split: sum.splits)
    from access_stamps(1) [OF _ _ _ this] st rs h show ?thesis
      by (simp add: latched_address stamped_latches stamped_by_access_latches)
  qed
  moreover have "stamped_by_access s s'"
    if h: "unat a < DATA_SIZE bs * bs * 2 \<and> apply_op bs (Write a v) s = Inr s'" for a v s'
  proof -
    from h obtain ph where "cache_write bs (s\<lparr>MAR := a, MDR := v\<rparr>) = Inr (ph, s')"
      by (auto split: sum.splits)
    from access_stamps(2) [OF _ _ _ this] st rs h show ?thesis
      by (simp add: latched_address stamped_latches stamped_by_access_latches)
  qed
  moreover have "\<not> valid (dictionary s' ! b) \<and> ref_count (dictionary s' ! b) = 0"
    if "b < length (dictionary s) \<and> valid (dictionary s ! b) \<and> write_block bs b s = Inr s'"
    for b s'
    using that write_block_clears [of bs b s s'] by simp
  ultimately show ?thesis using rs by blast
qed

theorem ref_counts_distinct_below_current_witness:
  "\<exists>s. run_ops 2 [Write 0 1, Write 4 2, Read 0] (startup 2 2) = Inr s
     \<and> dictionary s = [\<lparr>valid = True, dirty = True, ref_count = 3, tag = 0\<rparr>,
                        \<lparr>valid = True, dirty = True, ref_count = 2, tag = 2\<rparr>]
     \<and> current_ref_count s = 4 \<and> ref_counts_stamped s"
proof -
  from run_two_writes_and_a_read obtain s
    where r: "run_ops 2 [Write 0 1, Write 4 2, Read 0] (startup 2 2) = Inr s"
      and d: "dictionary s = [\<lparr>valid = True, dirty = True, ref_count = 3, tag = 0\<rparr>,
                        \<lparr>valid = True, dirty = True, ref_count = 2, tag = 2\<rparr>]"
      and c: "current_ref_count s = 4" by blast
  have "0 < (2::nat)" "length [Write 0 1, Write 4 2, Read 0] < 2 ^ 64 - 1" by simp_all
  from ref_counts_distinct_below_current [OF this r] have "ref_counts_stamped s" by simp
  with r d c show ?thesis by blast
qed

section \<open>Accesses to the register file\<close>

text \<open>The cache routines neither read nor change \<open>registers\<close>.\<close>

lemma write_block_regs:
  "write_block bs b (s\<lparr>registers := r\<rparr>) =
     (case write_block bs b s of Inl f \<Rightarrow> Inl f | Inr s' \<Rightarrow> Inr (s'\<lparr>registers := r\<rparr>))"
  by (simp add: write_block_def Let_def)

lemma removeLRU_regs:
  "removeLRU bs (s\<lparr>registers := r\<rparr>) =
     (case removeLRU bs s of Inl f \<Rightarrow> Inl f | Inr (b, s') \<Rightarrow> Inr (b, s'\<lparr>registers := r\<rparr>))"
  by (simp add: removeLRU_def Let_def write_block_regs split: sum.splits)

lemma fetch_block_regs:
  "fetch_block bs t (s\<lparr>registers := r\<rparr>) =
     (case fetch_block bs t s of Inl f \<Rightarrow> Inl f | Inr (b, s') \<Rightarrow> Inr (b, s'\<lparr>registers := r\<rparr>))"
proof (cases "first_free (dictionary s) 0")
  case (Some b)
  then show ?thesis by (simp add: fetch_block_def)
next
  case None
  show ?thesis
  proof (cases "removeLRU bs s")
    case (Inl f)
    with None show ?thesis by (simp add: fetch_block_def removeLRU_regs)
  next
    case (Inr p)
    obtain b s1 where "p = (b, s1)" by (cases p)
    with None Inr show ?thesis by (simp add: fetch_block_def removeLRU_regs)
  qed
qed

lemma locate_block_regs:
  "locate_block bs (s\<lparr>registers := r\<rparr>) =
     (case locate_block bs s of Inl f \<Rightarrow> Inl f | Inr (b, s') \<Rightarrow> Inr (b, s'\<lparr>registers := r\<rparr>))"
proof (cases "find_block (addr2tag bs (MAR s)) s")
  case (Some b)
  then show ?thesis by (simp add: locate_block_def find_block_def)
next
  case None
  then show ?thesis by (simp add: locate_block_def find_block_def fetch_block_regs)
qed

lemma cache_read_regs:
  "cache_read bs (s\<lparr>registers := r\<rparr>) =
     (case cache_read bs s of Inl f \<Rightarrow> Inl f | Inr (ph, s') \<Rightarrow> Inr (ph, s'\<lparr>registers := r\<rparr>))"
proof (cases "locate_block bs s")
  case (Inl f)
  then show ?thesis by (simp add: cache_read_def locate_block_regs)
next
  case (Inr p)
  obtain b s1 where "p = (b, s1)" by (cases p)
  with Inr show ?thesis by (simp add: cache_read_def locate_block_regs Let_def)
qed

lemma cache_write_regs:
  "cache_write bs (s\<lparr>registers := r\<rparr>) =
     (case cache_write bs s of Inl f \<Rightarrow> Inl f | Inr (ph, s') \<Rightarrow> Inr (ph, s'\<lparr>registers := r\<rparr>))"
proof (cases "locate_block bs s")
  case (Inl f)
  then show ?thesis by (simp add: cache_write_def locate_block_regs)
next
  case (Inr p)
  obtain b s1 where "p = (b, s1)" by (cases p)
  with Inr show ?thesis by (simp add: cache_write_def locate_block_regs Let_def)
qed

lemma register_file_nth:
  assumes "take REGISTERS r = take REGISTERS (registers s)" "k < REGISTERS"
  shows "r ! k = registers s ! k"
proof -
  have "r ! k = take REGISTERS r ! k" using assms(2) by simp
  also have "\<dots> = take REGISTERS (registers s) ! k" using assms(1) by simp
  also have "\<dots> = registers s ! k" using assms(2) by simp
  finally show ?thesis .
qed

lemma index_bounds:
  "unat (get_reg1 s) < REGISTERS" "unat (get_reg2 s) < REGISTERS"
  "ea_reg s \<noteq> 0xFF \<Longrightarrow> unat (ea_reg s) < REGISTERS"
  by (auto simp: get_reg1_def get_reg2_def ea_reg_def REGISTERS_def nibble_index_bound
      split: if_splits)

lemma decoded_fields_regs:
  "opcode (s\<lparr>registers := r\<rparr>) = opcode s" "mode (s\<lparr>registers := r\<rparr>) = mode s"
  "get_reg1 (s\<lparr>registers := r\<rparr>) = get_reg1 s" "get_reg2 (s\<lparr>registers := r\<rparr>) = get_reg2 s"
  "ea_reg (s\<lparr>registers := r\<rparr>) = ea_reg s"
  "extract_literal (s\<lparr>registers := r\<rparr>) = extract_literal s"
  by (simp_all add: opcode_def mode_def get_reg1_def get_reg2_def ea_reg_def extract_literal_def)

lemma fetch_instr_regs:
  "fetch_instr (s\<lparr>registers := r\<rparr>) = (fst (fetch_instr s), (snd (fetch_instr s))\<lparr>registers := r\<rparr>)"
  by (simp add: fetch_instr_def Let_def)

lemma decode_instr_regs:
  "decode_instr (s\<lparr>registers := r\<rparr>) = (fst (decode_instr s), (snd (decode_instr s))\<lparr>registers := r\<rparr>)"
  by (cases "opcode s") (simp_all add: decode_instr_def decoded_fields_regs)

lemma calculate_ea_regs:
  assumes "take REGISTERS r = take REGISTERS (registers s)"
  shows "calculate_ea (s\<lparr>registers := r\<rparr>)
         = (fst (calculate_ea s), (snd (calculate_ea s))\<lparr>registers := r\<rparr>)"
proof (cases "ea_reg s = 0xFF")
  case True
  then show ?thesis by (simp add: calculate_ea_def decoded_fields_regs)
next
  case False
  with register_file_nth [OF assms index_bounds(3)] show ?thesis
    by (simp add: calculate_ea_def decoded_fields_regs)
qed

lemma fetch_operands_regs:
  assumes "take REGISTERS r = take REGISTERS (registers s)"
  shows "fetch_operands bs (s\<lparr>registers := r\<rparr>) =
     (case fetch_operands bs s of
        Inl f \<Rightarrow> Inl f | Inr (p, s') \<Rightarrow> Inr (p, s'\<lparr>registers := r\<rparr>))"
proof -
  note n = register_file_nth [OF assms index_bounds(1)] register_file_nth [OF assms index_bounds(2)]
  show ?thesis
  proof (cases "opcode s = MOVE_OPCODE \<and> mode s AND 0x01 \<noteq> 0 \<and> mode s AND 0x04 = 0")
    case True
    then have "fetch_operands bs s = cache_read bs s"
      "fetch_operands bs (s\<lparr>registers := r\<rparr>) = cache_read bs (s\<lparr>registers := r\<rparr>)"
      by (simp_all add: fetch_operands_def decoded_fields_regs is_alu_def)
    then show ?thesis by (simp add: cache_read_regs)
  next
    case False
    with n show ?thesis
      by (auto simp: fetch_operands_def decoded_fields_regs Let_def)
  qed
qed

lemma execute_instr_regs:
  assumes "take REGISTERS r = take REGISTERS (registers s)"
  shows "execute_instr (s\<lparr>registers := r\<rparr>)
         = (fst (execute_instr s), (snd (execute_instr s))\<lparr>registers := r\<rparr>)"
proof -
  have "r ! 0 = registers s ! 0"
    using assms by (rule register_file_nth) (simp add: REGISTERS_def)
  then have "branch_taken (s\<lparr>registers := r\<rparr>) = branch_taken s"
    by (simp add: branch_taken_def decoded_fields_regs)
  then show ?thesis
    by (cases "opcode s")
      (simp_all add: execute_instr_def count_branch_def decoded_fields_regs Let_def)
qed

lemma same_register_file_update:
  assumes "take REGISTERS r = take REGISTERS (registers s)"
  shows "same_register_file (s\<lparr>registers := (registers s)[k := v], PC := p\<rparr>)
           (s\<lparr>registers := r[k := v], PC := p\<rparr>)"
  using assms by (simp add: same_register_file_def take_update_swap)

lemma same_register_file_PC:
  assumes "take REGISTERS r = take REGISTERS (registers s)"
  shows "same_register_file (s\<lparr>PC := p\<rparr>) (s\<lparr>registers := r, PC := p\<rparr>)"
  using assms by (simp add: same_register_file_def)

lemma write_back_regs:
  assumes "take REGISTERS r = take REGISTERS (registers s)"
  shows "same_outcome (write_back bs s) (write_back bs (s\<lparr>registers := r\<rparr>))"
proof (cases "opcode s = MOVE_OPCODE \<and> mode s AND 0x04 \<noteq> 0")
  case True
  then have w: "write_back bs s =
      (case cache_write bs s of Inl f \<Rightarrow> Inl f | Inr (rc, s') \<Rightarrow> Inr (rc, s'\<lparr>PC := PC s' + 1\<rparr>))"
    "write_back bs (s\<lparr>registers := r\<rparr>) =
      (case cache_write bs (s\<lparr>registers := r\<rparr>) of
         Inl f \<Rightarrow> Inl f | Inr (rc, s') \<Rightarrow> Inr (rc, s'\<lparr>PC := PC s' + 1\<rparr>))"
    by (simp_all add: write_back_def decoded_fields_regs is_alu_def Let_def)
  show ?thesis
  proof (cases "cache_write bs s")
    case (Inl f)
    with w show ?thesis by (simp add: cache_write_regs same_outcome_def)
  next
    case (Inr q)
    obtain rc s' where q: "q = (rc, s')" by (cases q)
    from cache_write_same_cpu [OF Inr [unfolded q]]
    have "take REGISTERS r = take REGISTERS (registers s')"
      using assms by (simp add: same_cpu_def)
    from same_register_file_PC [OF this] w Inr q show ?thesis
      by (simp add: cache_write_regs same_outcome_def)
  qed
next
  case False
  with same_register_file_update [OF assms] same_register_file_PC [OF assms] show ?thesis
    by (auto simp: write_back_def decoded_fields_regs Let_def same_outcome_def)
qed

lemma same_register_file_intro:
  "take REGISTERS r = take REGISTERS (registers b) \<Longrightarrow> same_register_file b (b\<lparr>registers := r\<rparr>)"
  by (simp add: same_register_file_def)

lemma write_back_registers:
  assumes "write_back bs s = Inr (ph, s')"
  shows "registers s' = registers s
       \<or> (\<exists>k < REGISTERS. \<exists>v. registers s' = (registers s)[k := v])"
proof (cases "opcode s = MOVE_OPCODE \<and> mode s AND 0x04 \<noteq> 0")
  case True
  with assms obtain rc s1 where "cache_write bs s = Inr (rc, s1)" "s' = s1\<lparr>PC := PC s1 + 1\<rparr>"
    by (auto simp: write_back_def is_alu_def Let_def split: sum.splits)
  with cache_write_same_cpu [of bs s rc s1] show ?thesis by (simp add: same_cpu_def)
next
  case False
  have "\<exists>k < REGISTERS. \<exists>v. (registers s)[unat (get_reg1 s) := w] = (registers s)[k := v]" for w
    using index_bounds(1) [of s] by blast
  with False assms show ?thesis
    by (auto simp: write_back_def Let_def split: if_splits)
qed

lemma calculate_ea_access:
  "ea_reg s = 0xFF \<and> snd (calculate_ea s) = s
   \<or> (\<exists>k < REGISTERS. snd (calculate_ea s) = s\<lparr>MAR := registers s ! k\<rparr>)"
proof (cases "ea_reg s = 0xFF")
  case True
  then show ?thesis by (simp add: calculate_ea_def)
next
  case False
  then have "snd (calculate_ea s) = s\<lparr>MAR := registers s ! unat (ea_reg s)\<rparr>"
    by (simp add: calculate_ea_def)
  with index_bounds(3) [OF False] show ?thesis by blast
qed

lemma fetch_operands_access:
  assumes "fetch_operands bs s = Inr (ph, s')"
  shows "registers s' = registers s"
    and "opcode s \<noteq> MOVE_OPCODE \<Longrightarrow> \<exists>i < REGISTERS. ALU_x s' = registers s ! i"
    and "is_alu (opcode s) \<Longrightarrow> mode s \<noteq> 0 \<Longrightarrow> \<exists>j < REGISTERS. ALU_y s' = registers s ! j"
    and "opcode s = MOVE_OPCODE \<Longrightarrow> mode s AND 0x01 \<noteq> 0 \<Longrightarrow> mode s AND 0x04 \<noteq> 0 \<Longrightarrow>
           \<exists>j < REGISTERS. MDR s' = registers s ! j"
proof -
  show "registers s' = registers s" using fetch_operands_frame [OF assms] by simp
  show "\<exists>i < REGISTERS. ALU_x s' = registers s ! i" if "opcode s \<noteq> MOVE_OPCODE"
    using fetch_operands_other_phase [OF that assms] index_bounds(1) [of s] by blast
  show "\<exists>j < REGISTERS. ALU_y s' = registers s ! j" if "is_alu (opcode s)" "mode s \<noteq> 0"
  proof -
    from that assms have "ALU_y s' = registers s ! unat (get_reg2 s)"
      by (auto simp: fetch_operands_def Let_def)
    with index_bounds(2) [of s] show ?thesis by blast
  qed
  show "\<exists>j < REGISTERS. MDR s' = registers s ! j"
    if "opcode s = MOVE_OPCODE" "mode s AND 0x01 \<noteq> 0" "mode s AND 0x04 \<noteq> 0"
  proof -
    from that assms have "MDR s' = registers s ! unat (get_reg2 s)"
      by (auto simp: fetch_operands_def Let_def is_alu_def)
    with index_bounds(2) [of s] show ?thesis by blast
  qed
qed

lemma control_unit_registers:
  assumes "control_unit bs ph s = Inr (ph', s')"
  shows "registers s' = registers s
       \<or> (\<exists>k < REGISTERS. \<exists>v. registers s' = (registers s)[k := v])"
proof (cases ph)
  case FETCH_INSTR
  with assms fetch_instr_frame [of s] show ?thesis by (auto simp: control_unit_def)
next
  case DECODE_INSTR
  with assms decode_instr_state [of s] show ?thesis by (auto simp: control_unit_def)
next
  case CALCULATE_EA
  with assms calculate_ea_frame [of s] show ?thesis by (auto simp: control_unit_def)
next
  case FETCH_OPERANDS
  with assms fetch_operands_frame [of bs s ph' s'] show ?thesis by (simp add: control_unit_def)
next
  case EXECUTE_INSTR
  with assms execute_instr_frame [of s] show ?thesis by (auto simp: control_unit_def)
next
  case WRITE_BACK
  with assms write_back_registers [of bs s ph' s'] show ?thesis by (simp add: control_unit_def)
qed (use assms in \<open>simp_all add: control_unit_def\<close>)

lemma control_unit_regs:
  assumes "same_register_file s t"
  shows "same_outcome (control_unit bs ph s) (control_unit bs ph t)"
proof -
  define r where "r = registers t"
  from assms have t: "t = s\<lparr>registers := r\<rparr>"
    and e: "take REGISTERS r = take REGISTERS (registers s)"
    by (simp_all add: same_register_file_def r_def)
  have pair: "same_outcome (Inr (p, b)) (Inr (p, b\<lparr>registers := r\<rparr>))"
    if "registers b = registers s" for p b
    using same_register_file_intro [of r b] e that by (simp add: same_outcome_def)
  have whole: "same_outcome (Inr x) (Inr (fst x, (snd x)\<lparr>registers := r\<rparr>))"
    if "registers (snd x) = registers s" for x
    using pair [OF that, of "fst x"] by simp
  show ?thesis
  proof (cases ph)
    case FETCH_INSTR
    with whole [of "fetch_instr s"] fetch_instr_frame [of s]
    show ?thesis by (simp add: control_unit_def t fetch_instr_regs)
  next
    case DECODE_INSTR
    with whole [of "decode_instr s"] decode_instr_state [of s]
    show ?thesis by (simp add: control_unit_def t decode_instr_regs)
  next
    case CALCULATE_EA
    with whole [of "calculate_ea s"] calculate_ea_frame [of s]
    show ?thesis by (simp add: control_unit_def t calculate_ea_regs [OF e])
  next
    case FETCH_OPERANDS
    show ?thesis
    proof (cases "fetch_operands bs s")
      case (Inl f)
      with FETCH_OPERANDS show ?thesis
        by (simp add: control_unit_def t fetch_operands_regs [OF e] same_outcome_def)
    next
      case (Inr q)
      obtain p b where q: "q = (p, b)" by (cases q)
      from fetch_operands_frame [OF Inr [unfolded q]] have "registers b = registers s" by simp
      from pair [OF this, of p] FETCH_OPERANDS Inr q show ?thesis
        by (simp add: control_unit_def t fetch_operands_regs [OF e])
    qed
  next
    case EXECUTE_INSTR
    with whole [of "execute_instr s"] execute_instr_frame [of s]
    show ?thesis by (simp add: control_unit_def t execute_instr_regs [OF e])
  next
    case WRITE_BACK
    with write_back_regs [OF e, of bs] show ?thesis by (simp add: control_unit_def t)
  next
    case NUM_PHASES
    with pair [of s NUM_PHASES] show ?thesis by (simp add: control_unit_def t)
  next
    case ILLEGAL_OPCODE
    with pair [of s ILLEGAL_OPCODE] show ?thesis by (simp add: control_unit_def t)
  next
    case INFINITE_LOOP
    with pair [of s INFINITE_LOOP] show ?thesis by (simp add: control_unit_def t)
  next
    case ILLEGAL_ADDRESS
    with pair [of s ILLEGAL_ADDRESS] show ?thesis by (simp add: control_unit_def t)
  qed
qed

text \<open>
  Claim C10.  For every instruction word and every state:
  the index computations \<open>get_reg1\<close> and \<open>(IR[1] >> 2) & 0x0F\<close> give values below
  \<open>REGISTERS = 16\<close>, and so does the index chosen by \<open>calculate_ea\<close> when it reads a
  register at all;
  \<open>calculate_ea\<close> either reads no register or latches \<open>registers[k]\<close> with \<open>k < 16\<close>
  into \<open>MAR\<close>;
  \<open>fetch_operands\<close> changes no register, and what it latches from the register file
  into \<open>ALU_x\<close>, \<open>ALU_y\<close> and \<open>MDR\<close> is \<open>registers[k]\<close> with \<open>k < 16\<close>;
  \<open>write_back\<close>, and every phase of the control unit, leaves \<open>registers\<close> unchanged or
  updates it at one index \<open>k < 16\<close>;
  and no phase of the control unit depends on anything at the indices 16 and beyond:
  on two states that differ only there, a phase gives the same fault, or the same
  next phase and two states that again differ only there.
\<close>

theorem register_accesses_in_range:
  "unat (get_reg1 s) < REGISTERS \<and> unat (get_reg2 s) < REGISTERS
   \<and> (ea_reg s \<noteq> 0xFF \<longrightarrow> unat (ea_reg s) < REGISTERS)
   \<and> (ea_reg s = 0xFF \<and> snd (calculate_ea s) = s
       \<or> (\<exists>k < REGISTERS. snd (calculate_ea s) = s\<lparr>MAR := registers s ! k\<rparr>))
   \<and> (\<forall>ph' s'. fetch_operands bs s = Inr (ph', s') \<longrightarrow>
         registers s' = registers s
         \<and> (opcode s \<noteq> MOVE_OPCODE \<longrightarrow> (\<exists>i < REGISTERS. ALU_x s' = registers s ! i))
         \<and> (is_alu (opcode s) \<and> mode s \<noteq> 0 \<longrightarrow> (\<exists>j < REGISTERS. ALU_y s' = registers s ! j))
         \<and> (opcode s = MOVE_OPCODE \<and> mode s AND 0x01 \<noteq> 0 \<and> mode s AND 0x04 \<noteq> 0 \<longrightarrow>
              (\<exists>j < REGISTERS. MDR s' = registers s ! j)))
   \<and> (\<forall>ph' s'. write_back bs s = Inr (ph', s') \<longrightarrow>
         registers s' = registers s
         \<or> (\<exists>k < REGISTERS. \<exists>v. registers s' = (registers s)[k := v]))
   \<and> (\<forall>ph ph' s'. control_unit bs ph s = Inr (ph', s') \<longrightarrow>
         registers s' = registers s
         \<or> (\<exists>k < REGISTERS. \<exists>v. registers s' = (registers s)[k := v]))
   \<and> (\<forall>ph t. same_register_file s t \<longrightarrow>
         same_outcome (control_unit bs ph s) (control_unit bs ph t))"
proof (intro conjI allI impI)
  show "unat (get_reg1 s) < REGISTERS" "unat (get_reg2 s) < REGISTERS"
    by (rule index_bounds)+
  show "unat (ea_reg s) < REGISTERS" if "ea_reg s \<noteq> 0xFF"
    using that by (rule index_bounds)
  show "ea_reg s = 0xFF \<and> snd (calculate_ea s) = s
       \<or> (\<exists>k < REGISTERS. snd (calculate_ea s) = s\<lparr>MAR := registers s ! k\<rparr>)"
    by (rule calculate_ea_access)
next
  fix ph' s' assume f: "fetch_operands bs s = Inr (ph', s')"
  show "registers s' = registers s" using f by (rule fetch_operands_access)
  show "\<exists>i < REGISTERS. ALU_x s' = registers s ! i" if "opcode s \<noteq> MOVE_OPCODE"
    using f that by (rule fetch_operands_access)
  show "\<exists>j < REGISTERS. ALU_y s' = registers s ! j" if "is_alu (opcode s) \<and> mode s \<noteq> 0"
    using fetch_operands_access(3) [OF f] that by simp
  show "\<exists>j < REGISTERS. MDR s' = registers s ! j"
    if "opcode s = MOVE_OPCODE \<and> mode s AND 0x01 \<noteq> 0 \<and> mode s AND 0x04 \<noteq> 0"
    using fetch_operands_access(4) [OF f] that by simp
next
  fix ph' s' assume "write_back bs s = Inr (ph', s')"
  then show "registers s' = registers s
         \<or> (\<exists>k < REGISTERS. \<exists>v. registers s' = (registers s)[k := v])"
    by (rule write_back_registers)
next
  fix ph ph' s' assume "control_unit bs ph s = Inr (ph', s')"
  then show "registers s' = registers s
         \<or> (\<exists>k < REGISTERS. \<exists>v. registers s' = (registers s)[k := v])"
    by (rule control_unit_registers)
next
  fix ph t assume "same_register_file s t"
  then show "same_outcome (control_unit bs ph s) (control_unit bs ph t)"
    by (rule control_unit_regs)
qed

theorem register_accesses_in_range_witness:
  "ea_reg move_latched = 15 \<and> unat (ea_reg move_latched) < REGISTERS
   \<and> (\<exists>k < REGISTERS. snd (calculate_ea move_latched)
                          = move_latched\<lparr>MAR := registers move_latched ! k\<rparr>)
   \<and> (\<exists>ph' s'. fetch_operands 8 move_latched = Inr (ph', s')
          \<and> (\<exists>j < REGISTERS. MDR s' = registers move_latched ! j))
   \<and> same_register_file move_latched
         (move_latched\<lparr>registers := registers move_latched @ [0xBEEF]\<rparr>)
   \<and> same_outcome (control_unit 8 CALCULATE_EA move_latched)
         (control_unit 8 CALCULATE_EA
            (move_latched\<lparr>registers := registers move_latched @ [0xBEEF]\<rparr>))
   \<and> (\<exists>ph' s'. write_back 8 add_latched = Inr (ph', s') \<and> registers s' ! 15 = 7
          \<and> (registers s' = registers add_latched
              \<or> (\<exists>k < REGISTERS. \<exists>v. registers s' = (registers add_latched)[k := v])))"
proof -
  let ?t = "move_latched\<lparr>registers := registers move_latched @ [0xBEEF]\<rparr>"
  have e: "ea_reg move_latched = 15"
    by (simp add: move_latched_def ea_reg_def mode_def get_reg1_def)
  have m: "opcode move_latched = MOVE_OPCODE \<and> mode move_latched AND 0x01 \<noteq> 0
           \<and> mode move_latched AND 0x04 \<noteq> 0"
    by (simp add: move_latched_def opcode_def opcode_of_def mode_def)
  have f: "fetch_operands 8 move_latched
           = Inr (WRITE_BACK, move_latched\<lparr>MDR := registers move_latched ! 15\<rparr>)"
    using m by (simp add: fetch_operands_def is_alu_def)
      (simp add: move_latched_def get_reg2_def)
  have r: "same_register_file move_latched ?t"
    by (simp add: same_register_file_def move_latched_def registers_startup REGISTERS_def)
  have a: "opcode add_latched = ADD_OPCODE"
    by (simp add: add_latched_def opcode_def opcode_of_def)
  have w: "write_back 8 add_latched
           = Inr (FETCH_INSTR, add_latched\<lparr>registers := (registers add_latched)[15 := 7],
                                             PC := PC add_latched + 1\<rparr>)"
    using a by (simp add: write_back_def is_alu_def)
      (simp add: add_latched_def get_reg1_def)
  have n: "registers (add_latched\<lparr>registers := (registers add_latched)[15 := 7],
                             PC := PC add_latched + 1\<rparr>) ! 15 = 7"
    by (simp add: add_latched_def registers_startup REGISTERS_def)
  note t = register_accesses_in_range [of move_latched 8]
  note u = register_accesses_in_range [of add_latched 8]
  from t e have 1: "unat (ea_reg move_latched) < REGISTERS"
    and 2: "\<exists>k < REGISTERS. snd (calculate_ea move_latched)
                          = move_latched\<lparr>MAR := registers move_latched ! k\<rparr>"
    by simp_all
  from t f m have 3: "\<exists>j < REGISTERS. MDR (move_latched\<lparr>MDR := registers move_latched ! 15\<rparr>)
                        = registers move_latched ! j"
    by blast
  from t r have 4: "same_outcome (control_unit 8 CALCULATE_EA move_latched)
         (control_unit 8 CALCULATE_EA ?t)" by blast
  from u w have 5: "registers (add_latched\<lparr>registers := (registers add_latched)[15 := 7],
                             PC := PC add_latched + 1\<rparr>) = registers add_latched
      \<or> (\<exists>k < REGISTERS. \<exists>v.
      registers (add_latched\<lparr>registers := (registers add_latched)[15 := 7],
                             PC := PC add_latched + 1\<rparr>) = (registers add_latched)[k := v])"
    by blast
  from e 1 2 3 4 5 f w r n show ?thesis by (intro conjI) blast+
qed

end
